theory Spec2Isabelle
  imports Complex_Main "HOL-Library.AList"
begin

section \<open>Python values, references and errors\<close>

text \<open>
  The fragment of Python values that entity identifiers and tags are drawn from.
  \<open>truthy\<close> is Python's truth test, which \<open>entity_id or str(uuid.uuid4())\<close> applies to
  the supplied identifier.
\<close>

datatype pyval = PNone | PBool bool | PInt int | PStr string | PTuple "pyval list"

fun truthy :: "pyval \<Rightarrow> bool" where
  "truthy PNone = False"
| "truthy (PBool b) = b"
| "truthy (PInt n) = (n \<noteq> 0)"
| "truthy (PStr s) = (s \<noteq> [])"
| "truthy (PTuple vs) = (vs \<noteq> [])"

text \<open>
  Objects live in a store and are named by references. An entity reference is an
  address. A component reference carries the class of the object it points to, so that
  \<open>get_component_type\<close> (a classmethod returning \<open>cls\<close>) depends on the reference alone.
  A component type is the class, named by its \<open>__name__\<close>.
\<close>

type_synonym eref = nat
type_synonym ctype = string

datatype cref = CRef ctype nat

fun get_component_type :: "cref \<Rightarrow> ctype" where
  "get_component_type (CRef cls n) = cls"

datatype error = ValueError string | KeyError string | ZeroDivisionError | DuplicateIdError pyval

section \<open>Component, Entity and the store\<close>

text \<open>\<open>Component.__init__\<close> sets \<open>self.entity = None\<close>; it is the only field of the base class.\<close>

record Component =
  entity :: "eref option"

text \<open>
  \<open>Entity.__init__\<close>: \<open>id\<close>, \<open>components\<close> (a dict, kept as an association list in
  insertion order, which is the order \<open>destroy\<close> iterates in), \<open>tags\<close>, \<open>active\<close>.
  The field \<open>world\<close> is the one World of the store.
\<close>

record Entity =
  entity_id :: pyval
  components :: "(ctype \<times> cref) list"
  tags :: "pyval set"
  active :: bool

text \<open>
  Modelled from the spec: the class World (src/ecs/world.py is not among the sources).
  Section 3 of the specification gives it the entity registry (id to Entity), a secondary
  index from component type to the set of entity ids holding that type, a secondary index
  from tag to the set of entity ids holding that tag, and (section 4.1, \<open>set_active\<close>) an
  active-set view.
\<close>

record World =
  registry :: "pyval \<rightharpoonup> eref"
  type_index :: "ctype \<Rightarrow> pyval set"
  tag_index :: "pyval \<Rightarrow> pyval set"
  active_ids :: "pyval set"

record store =
  ents :: "eref \<Rightarrow> Entity"
  comps :: "cref \<Rightarrow> Component"
  world :: World
  next_eref :: nat

text \<open>
  The lifecycle hooks \<open>on_add\<close> and \<open>on_remove\<close> are methods a subclass may override;
  a hook sees, and may change, the whole store. \<open>Component_hooks\<close> are those of the base
  class, whose bodies are \<open>pass\<close>.
\<close>

record hooks =
  on_add :: "cref \<Rightarrow> store \<Rightarrow> store"
  on_remove :: "cref \<Rightarrow> store \<Rightarrow> store"

definition Component_hooks :: hooks where
  "Component_hooks = \<lparr>on_add = (\<lambda>c s. s), on_remove = (\<lambda>c s. s)\<rparr>"

definition set_entity :: "cref \<Rightarrow> eref \<Rightarrow> store \<Rightarrow> store" where
  "set_entity c e s = s\<lparr>comps := (comps s)(c := (comps s c)\<lparr>entity := Some e\<rparr>)\<rparr>"

definition get_entity :: "store \<Rightarrow> cref \<Rightarrow> eref option" where
  "get_entity s c = entity (comps s c)"

section \<open>World notifications\<close>

text \<open>
  Modelled from the spec: the notification methods of World that Entity calls
  (\<open>_entity_component_added\<close>, \<open>_entity_component_removed\<close>, \<open>_entity_tag_added\<close>,
  \<open>_entity_tag_removed\<close>, \<open>_entity_active_changed\<close>, \<open>_remove_entity\<close>). Section 4.2: each
  updates exactly the indexes affected; \<open>_remove_entity\<close> erases the entity from every index.
\<close>

definition entity_component_added :: "eref \<Rightarrow> cref \<Rightarrow> store \<Rightarrow> store" where
  "entity_component_added e c s =
     (let w = world s; t = get_component_type c in
      s\<lparr>world := w\<lparr>type_index := (type_index w)(t := insert (entity_id (ents s e)) (type_index w t))\<rparr>\<rparr>)"

definition entity_component_removed :: "eref \<Rightarrow> cref \<Rightarrow> store \<Rightarrow> store" where
  "entity_component_removed e c s =
     (let w = world s; t = get_component_type c in
      s\<lparr>world := w\<lparr>type_index := (type_index w)(t := type_index w t - {entity_id (ents s e)})\<rparr>\<rparr>)"

definition entity_tag_added :: "eref \<Rightarrow> pyval \<Rightarrow> store \<Rightarrow> store" where
  "entity_tag_added e tag s =
     (let w = world s in
      s\<lparr>world := w\<lparr>tag_index := (tag_index w)(tag := insert (entity_id (ents s e)) (tag_index w tag))\<rparr>\<rparr>)"

definition entity_tag_removed :: "eref \<Rightarrow> pyval \<Rightarrow> store \<Rightarrow> store" where
  "entity_tag_removed e tag s =
     (let w = world s in
      s\<lparr>world := w\<lparr>tag_index := (tag_index w)(tag := tag_index w tag - {entity_id (ents s e)})\<rparr>\<rparr>)"

definition entity_active_changed :: "eref \<Rightarrow> bool \<Rightarrow> store \<Rightarrow> store" where
  "entity_active_changed e a s =
     (let w = world s; i = entity_id (ents s e) in
      s\<lparr>world := w\<lparr>active_ids := (if a then insert i (active_ids w) else active_ids w - {i})\<rparr>\<rparr>)"

definition remove_entity :: "eref \<Rightarrow> store \<Rightarrow> store" where
  "remove_entity e s =
     (let w = world s; i = entity_id (ents s e) in
      s\<lparr>world := \<lparr>registry = (registry w)(i := None),
                   type_index = (\<lambda>t. type_index w t - {i}),
                   tag_index = (\<lambda>tag. tag_index w tag - {i}),
                   active_ids = active_ids w - {i}\<rparr>\<rparr>)"

section \<open>Entity\<close>

text \<open>
  \<open>Entity.__init__(world, entity_id)\<close>: \<open>uuid\<close> is the string \<open>str(uuid.uuid4())\<close> would
  return, which the expression \<open>entity_id or str(uuid.uuid4())\<close> uses when \<open>entity_id\<close> is
  falsy.
\<close>

definition Entity_init :: "pyval \<Rightarrow> string \<Rightarrow> Entity" where
  "Entity_init eid uuid =
     \<lparr>entity_id = (if truthy eid then eid else PStr uuid),
      components = [],
      tags = {},
      active = True\<rparr>"

definition has_component :: "store \<Rightarrow> eref \<Rightarrow> ctype \<Rightarrow> bool" where
  "has_component s self component_type \<longleftrightarrow> component_type \<in> fst ` set (components (ents s self))"

definition get_component :: "store \<Rightarrow> eref \<Rightarrow> ctype \<Rightarrow> cref option" where
  "get_component s self component_type = map_of (components (ents s self)) component_type"

definition has_components :: "store \<Rightarrow> eref \<Rightarrow> ctype list \<Rightarrow> bool" where
  "has_components s self component_types \<longleftrightarrow> list_all (has_component s self) component_types"

definition has_tag :: "store \<Rightarrow> eref \<Rightarrow> pyval \<Rightarrow> bool" where
  "has_tag s self tag \<longleftrightarrow> tag \<in> tags (ents s self)"

definition is_active :: "store \<Rightarrow> eref \<Rightarrow> bool" where
  "is_active s self = active (ents s self)"

definition set_components :: "eref \<Rightarrow> (ctype \<times> cref) list \<Rightarrow> store \<Rightarrow> store" where
  "set_components self cs s = s\<lparr>ents := (ents s)(self := (ents s self)\<lparr>components := cs\<rparr>)\<rparr>"

text \<open>
  \<open>Entity.add_component\<close>. The result pairs what the call returns or raises with the store
  it leaves behind.
\<close>

definition add_component :: "hooks \<Rightarrow> eref \<Rightarrow> cref \<Rightarrow> store \<Rightarrow> (error + eref) \<times> store" where
  "add_component hk self component s =
     (let component_type = get_component_type component in
      if has_component s self component_type
      then (Inl (ValueError (''Entity already has a component of type '' @ component_type)), s)
      else
        let s1 = set_entity component self s;
            s2 = set_components self
                   (AList.update component_type component (components (ents s1 self))) s1;
            s3 = entity_component_added self component s2;
            s4 = on_add hk component s3
        in (Inr self, s4))"

text \<open>
  \<open>Entity.remove_component\<close>. \<open>del self.components[component_type]\<close> raises KeyError when
  the hook itself has taken the key away.
\<close>

definition remove_component ::
  "hooks \<Rightarrow> eref \<Rightarrow> ctype \<Rightarrow> store \<Rightarrow> (error + cref option) \<times> store" where
  "remove_component hk self component_type s =
     (case get_component s self component_type of
        None \<Rightarrow> (Inr None, s)
      | Some component \<Rightarrow>
          let s1 = on_remove hk component s in
          if has_component s1 self component_type
          then
            let s2 = set_components self
                       (AList.delete component_type (components (ents s1 self))) s1;
                s3 = entity_component_removed self component s2
            in (Inr (Some component), s3)
          else (Inl (KeyError component_type), s1))"

definition add_tag :: "eref \<Rightarrow> pyval \<Rightarrow> store \<Rightarrow> eref \<times> store" where
  "add_tag self tag s =
     (let s1 = s\<lparr>ents := (ents s)(self := (ents s self)\<lparr>tags := insert tag (tags (ents s self))\<rparr>)\<rparr>
      in (self, entity_tag_added self tag s1))"

definition remove_tag :: "eref \<Rightarrow> pyval \<Rightarrow> store \<Rightarrow> bool \<times> store" where
  "remove_tag self tag s =
     (if has_tag s self tag
      then
        let s1 = s\<lparr>ents := (ents s)(self := (ents s self)\<lparr>tags := tags (ents s self) - {tag}\<rparr>)\<rparr>
        in (True, entity_tag_removed self tag s1)
      else (False, s))"

definition set_active :: "eref \<Rightarrow> bool \<Rightarrow> store \<Rightarrow> eref \<times> store" where
  "set_active self a s =
     (if active (ents s self) \<noteq> a
      then
        let s1 = s\<lparr>ents := (ents s)(self := (ents s self)\<lparr>active := a\<rparr>)\<rparr>
        in (self, entity_active_changed self a s1)
      else (self, s))"

text \<open>
  \<open>Entity.destroy\<close>: the loop over \<open>list(self.components.keys())\<close>, a snapshot of the keys
  taken before the first removal, then \<open>self.world._remove_entity(self)\<close>. An exception
  of a removal leaves the loop and the method.
\<close>

fun remove_all :: "hooks \<Rightarrow> eref \<Rightarrow> ctype list \<Rightarrow> store \<Rightarrow> (error + unit) \<times> store" where
  "remove_all hk self [] s = (Inr (), s)"
| "remove_all hk self (component_type # rest) s =
     (case remove_component hk self component_type s of
        (Inl err, s') \<Rightarrow> (Inl err, s')
      | (Inr _, s') \<Rightarrow> remove_all hk self rest s')"

definition destroy :: "hooks \<Rightarrow> eref \<Rightarrow> store \<Rightarrow> (error + unit) \<times> store" where
  "destroy hk self s =
     (case remove_all hk self (map fst (components (ents s self))) s of
        (Inl err, s') \<Rightarrow> (Inl err, s')
      | (Inr _, s') \<Rightarrow> (Inr (), remove_entity self s'))"

section \<open>World\<close>

text \<open>
  Modelled from the spec: \<open>World.__init__\<close> and \<open>World.create_entity\<close> (section 4.2). A new
  World has empty indexes. \<open>create_entity\<close> builds the Entity with \<open>Entity.__init__\<close>, fails
  with DuplicateIdError when its id is already that of a live entity, and otherwise
  registers it; a new entity is active and has neither components nor tags. Before any
  entity is created no Entity object exists and every Component object is detached.
\<close>

definition World_init :: store where
  "World_init =
     \<lparr>ents = (\<lambda>r. Entity_init PNone []),
      comps = (\<lambda>c. \<lparr>entity = None\<rparr>),
      world = \<lparr>registry = Map.empty, type_index = (\<lambda>t. {}), tag_index = (\<lambda>tag. {}),
               active_ids = {}\<rparr>,
      next_eref = 0\<rparr>"

definition create_entity :: "pyval \<Rightarrow> string \<Rightarrow> store \<Rightarrow> (error + eref) \<times> store" where
  "create_entity eid uuid s =
     (let e = Entity_init eid uuid; i = entity_id e; w = world s in
      if registry w i \<noteq> None then (Inl (DuplicateIdError i), s)
      else
        let r = next_eref s in
        (Inr r,
         s\<lparr>ents := (ents s)(r := e),
           world := w\<lparr>registry := (registry w)(i \<mapsto> r), active_ids := insert i (active_ids w)\<rparr>,
           next_eref := Suc r\<rparr>))"

text \<open>
  Modelled from the spec: \<open>World.query(required_types, include_inactive=false)\<close>
  (section 4.2): the intersection of the per-type index sets, the smallest candidate set
  first, without the inactive entities unless they are requested. The order of the result
  is unspecified, so the result is the set of the entities returned. With no required
  type every registered entity matches.
\<close>

definition query :: "store \<Rightarrow> ctype list \<Rightarrow> bool \<Rightarrow> eref set" where
  "query s required_types include_inactive =
     (let w = world s;
          candidates = sort_key card (map (type_index w) required_types);
          ids = (case candidates of [] \<Rightarrow> dom (registry w) | c # cs \<Rightarrow> fold (\<inter>) cs c);
          ids' = (if include_inactive then ids else ids \<inter> active_ids w)
      in Option.these (registry w ` ids'))"

section \<open>Sequences of operations\<close>

text \<open>
  An entity is live when the registry of the World holds it under its id. The operations
  a caller performs on a World and its entities; \<open>apply_op\<close> is \<open>None\<close> when the
  operation is called on an entity that is not live (never created, or destroyed), which
  the specification forbids. A caller that catches ValueError or DuplicateIdError goes on
  with the store the failed call left.
\<close>

definition live :: "store \<Rightarrow> eref \<Rightarrow> bool" where
  "live s e \<longleftrightarrow> registry (world s) (entity_id (ents s e)) = Some e"

datatype op =
    Create pyval string
  | Attach eref cref
  | Detach eref ctype
  | AddTag eref pyval
  | RemoveTag eref pyval
  | SetActive eref bool
  | Destroy eref

fun target :: "op \<Rightarrow> eref option" where
  "target (Create eid uuid) = None"
| "target (Attach e c) = Some e"
| "target (Detach e t) = Some e"
| "target (AddTag e tag) = Some e"
| "target (RemoveTag e tag) = Some e"
| "target (SetActive e a) = Some e"
| "target (Destroy e) = Some e"

fun perform :: "op \<Rightarrow> store \<Rightarrow> store" where
  "perform (Create eid uuid) s = snd (create_entity eid uuid s)"
| "perform (Attach e c) s = snd (add_component Component_hooks e c s)"
| "perform (Detach e t) s = snd (remove_component Component_hooks e t s)"
| "perform (AddTag e tag) s = snd (add_tag e tag s)"
| "perform (RemoveTag e tag) s = snd (remove_tag e tag s)"
| "perform (SetActive e a) s = snd (set_active e a s)"
| "perform (Destroy e) s = snd (destroy Component_hooks e s)"

definition apply_op :: "store \<Rightarrow> op \<Rightarrow> store option" where
  "apply_op s x =
     (case target x of
        None \<Rightarrow> Some (perform x s)
      | Some e \<Rightarrow> if live s e then Some (perform x s) else None)"

fun run_ops :: "store \<Rightarrow> op list \<Rightarrow> store option" where
  "run_ops s [] = Some s"
| "run_ops s (x # xs) = (case apply_op s x of None \<Rightarrow> None | Some s' \<Rightarrow> run_ops s' xs)"

text \<open>
  The invariant of section 3: the indexes of the World agree with the entities the
  registry holds. \<open>holders s P\<close> are the ids of the registered entities that satisfy \<open>P\<close>;
  \<open>reg_ok\<close> says that the registry holds every entity under its own id; \<open>keyed\<close> says
  that every component is stored under its own class.
\<close>

definition holders :: "store \<Rightarrow> (Entity \<Rightarrow> bool) \<Rightarrow> pyval set" where
  "holders s P = {i. \<exists>r. registry (world s) i = Some r \<and> P (ents s r)}"

definition reg_ok :: "store \<Rightarrow> bool" where
  "reg_ok s \<longleftrightarrow>
     (\<forall>i r. registry (world s) i = Some r \<longrightarrow> r < next_eref s \<and> entity_id (ents s r) = i)"

definition keyed :: "store \<Rightarrow> bool" where
  "keyed s \<longleftrightarrow> (\<forall>r t c. (t, c) \<in> set (components (ents s r)) \<longrightarrow> get_component_type c = t)"

definition consistent :: "store \<Rightarrow> bool" where
  "consistent s \<longleftrightarrow>
     reg_ok s \<and> keyed s \<and>
     (\<forall>t. type_index (world s) t = holders s (\<lambda>x. t \<in> fst ` set (components x))) \<and>
     (\<forall>tag. tag_index (world s) tag = holders s (\<lambda>x. tag \<in> tags x)) \<and>
     active_ids (world s) = holders s active"

text \<open>An entity that was created and is no longer live: it has been destroyed.\<close>

definition gone :: "store \<Rightarrow> eref \<Rightarrow> bool" where
  "gone s e \<longleftrightarrow> \<not> live s e \<and> e < next_eref s"

section \<open>A small World\<close>

text \<open>
  Two entities, a Transform on each, a tag on the first; the second is switched off.
\<close>

definition demo_ops :: "op list" where
  "demo_ops =
     [Create (PStr ''player'') ''u1'', Create PNone ''u2'',
      Attach 0 (CRef ''Transform'' 0), Attach 1 (CRef ''Transform'' 1),
      AddTag 0 (PStr ''hero''), SetActive 1 False]"

definition demo_store :: store where
  "demo_store = the (run_ops World_init demo_ops)"

text \<open>The first entity of the small World is given a Sprite.\<close>

definition sprite_store :: store where
  "sprite_store = snd (add_component Component_hooks 0 (CRef ''Sprite'' 0) demo_store)"

section \<open>PlayerController\<close>

text \<open>
  Python's floats are binary64 numbers: every arithmetic operation returns the exact
  result rounded to a float. The rounding is the parameter \<open>fl\<close> of the functions below:
  \<open>a + b\<close> of the source is \<open>fl (a + b)\<close>, \<open>x ** 2\<close> is \<open>fl (x ^ 2)\<close> and \<open>x ** 0.5\<close> is
  \<open>fl (sqrt x)\<close>. \<open>binary64_rounding\<close> states the two properties of it that are used: an
  integer of small magnitude is a float, and in the range of magnitudes from 1/4 to 1024
  the relative error of a result is at most \<open>2 ^ -52\<close>. Exact arithmetic, \<open>fl x = x\<close>, has
  both properties.
\<close>

definition binary64_rounding :: "(real \<Rightarrow> real) \<Rightarrow> bool" where
  "binary64_rounding fl \<longleftrightarrow>
     fl 0 = 0 \<and> fl 1 = 1 \<and> fl (- 1) = - 1 \<and> fl 2 = 2 \<and>
     (\<forall>x. 1 / 4 \<le> \<bar>x\<bar> \<and> \<bar>x\<bar> \<le> 1024 \<longrightarrow> \<bar>fl x - x\<bar> \<le> \<bar>x\<bar> / 2 ^ 52)"

text \<open>
  The dataclass \<open>PlayerController\<close>. \<open>on_interact\<close> is a callback without arguments or
  result; what it does is a change of the state \<open>'w\<close> of the program around it. The key
  codes are those of pygame.
\<close>

record 'w PlayerController =
  move_speed :: real
  sprint_multiplier :: real
  interaction_range :: real
  move_keys :: "string \<rightharpoonup> int"
  sprint_key :: int
  interact_key :: int
  is_moving :: bool
  is_sprinting :: bool
  move_direction :: "real \<times> real"
  facing_direction :: "real \<times> real"
  on_interact :: "('w \<Rightarrow> 'w) option"

definition K_w :: int where "K_w = 119"
definition K_s :: int where "K_s = 115"
definition K_a :: int where "K_a = 97"
definition K_d :: int where "K_d = 100"
definition K_e :: int where "K_e = 101"
definition K_LSHIFT :: int where "K_LSHIFT = 1073742049"

definition PlayerController_init :: "'w PlayerController" where
  "PlayerController_init =
     \<lparr>move_speed = 150, sprint_multiplier = 3 / 2, interaction_range = 100,
      move_keys = [''up'' \<mapsto> K_w, ''down'' \<mapsto> K_s, ''left'' \<mapsto> K_a, ''right'' \<mapsto> K_d],
      sprint_key = K_LSHIFT, interact_key = K_e,
      is_moving = False, is_sprinting = False,
      move_direction = (0, 0), facing_direction = (0, 1),
      on_interact = None\<rparr>"

text \<open>\<open>keys_pressed.get(key, False)\<close> on a \<open>Dict[int, bool]\<close>.\<close>

definition pressed :: "(int \<rightharpoonup> bool) \<Rightarrow> int \<Rightarrow> bool" where
  "pressed keys k = (case keys k of None \<Rightarrow> False | Some b \<Rightarrow> b)"

text \<open>
  One of the four \<open>if keys_pressed.get(self.move_keys[name], False):\<close> statements of
  \<open>process_input\<close>: \<open>self.move_keys[name]\<close> raises KeyError when the dict has no such key;
  when the key is pressed the direction is moved and the facing direction is set.
\<close>

definition key_step ::
  "string \<Rightarrow> (real \<times> real \<Rightarrow> real \<times> real) \<Rightarrow> real \<times> real \<Rightarrow> (int \<rightharpoonup> bool) \<Rightarrow>
   'w PlayerController \<Rightarrow> (error + unit) \<times> 'w PlayerController" where
  "key_step name move facing keys_pressed pc =
     (case move_keys pc name of
        None \<Rightarrow> (Inl (KeyError name), pc)
      | Some k \<Rightarrow>
          (Inr (),
           if pressed keys_pressed k
           then pc\<lparr>move_direction := move (move_direction pc), facing_direction := facing\<rparr>
           else pc))"

text \<open>
  The normalisation of a diagonal direction (lines 84 to 86). The division raises
  ZeroDivisionError when the length is zero.
\<close>

definition normalize_diagonal ::
  "(real \<Rightarrow> real) \<Rightarrow> 'w PlayerController \<Rightarrow> (error + unit) \<times> 'w PlayerController" where
  "normalize_diagonal fl pc =
     (let dx = fst (move_direction pc); dy = snd (move_direction pc) in
      if dx \<noteq> 0 \<and> dy \<noteq> 0
      then
        let length = fl (sqrt (fl (fl (dx ^ 2) + fl (dy ^ 2)))) in
        if length = 0 then (Inl ZeroDivisionError, pc)
        else (Inr (), pc\<lparr>move_direction := (fl (dx / length), fl (dy / length))\<rparr>)
      else (Inr (), pc))"

text \<open>The rest of \<open>process_input\<close>, from the sprint key on (lines 88 to 103).\<close>

definition scale_movement ::
  "(real \<Rightarrow> real) \<Rightarrow> real \<Rightarrow> (int \<rightharpoonup> bool) \<Rightarrow> 'w PlayerController \<Rightarrow>
   (real \<times> real) \<times> 'w PlayerController" where
  "scale_movement fl dt keys_pressed pc =
     (let pc1 = pc\<lparr>is_sprinting := pressed keys_pressed (sprint_key pc)\<rparr>;
          speed = (if is_sprinting pc1 then fl (move_speed pc1 * sprint_multiplier pc1)
                   else move_speed pc1);
          move_x = fl (fl (fst (move_direction pc1) * speed) * dt);
          move_y = fl (fl (snd (move_direction pc1) * speed) * dt);
          pc2 = pc1\<lparr>is_moving := (move_x \<noteq> 0 \<or> move_y \<noteq> 0)\<rparr>
      in ((move_x, move_y), pc2))"

text \<open>
  \<open>PlayerController.process_input\<close>: what it returns or raises, and the controller it
  leaves.
\<close>

definition process_input ::
  "(real \<Rightarrow> real) \<Rightarrow> 'w PlayerController \<Rightarrow> real \<Rightarrow> (int \<rightharpoonup> bool) \<Rightarrow>
   (error + real \<times> real) \<times> 'w PlayerController" where
  "process_input fl pc dt keys_pressed =
     (let pc0 = pc\<lparr>move_direction := (0, 0)\<rparr> in
      case key_step ''up'' (\<lambda>d. (fst d, fl (snd d - 1))) (0, - 1) keys_pressed pc0 of
        (Inl err, pc1) \<Rightarrow> (Inl err, pc1)
      | (Inr _, pc1) \<Rightarrow>
      case key_step ''down'' (\<lambda>d. (fst d, fl (snd d + 1))) (0, 1) keys_pressed pc1 of
        (Inl err, pc2) \<Rightarrow> (Inl err, pc2)
      | (Inr _, pc2) \<Rightarrow>
      case key_step ''left'' (\<lambda>d. (fl (fst d - 1), snd d)) (- 1, 0) keys_pressed pc2 of
        (Inl err, pc3) \<Rightarrow> (Inl err, pc3)
      | (Inr _, pc3) \<Rightarrow>
      case key_step ''right'' (\<lambda>d. (fl (fst d + 1), snd d)) (1, 0) keys_pressed pc3 of
        (Inl err, pc4) \<Rightarrow> (Inl err, pc4)
      | (Inr _, pc4) \<Rightarrow>
      case normalize_diagonal fl pc4 of
        (Inl err, pc5) \<Rightarrow> (Inl err, pc5)
      | (Inr _, pc5) \<Rightarrow>
          let (movement, pc6) = scale_movement fl dt keys_pressed pc5 in (Inr movement, pc6))"

text \<open>
  \<open>PlayerController.process_interaction\<close>: the callback is called when the interaction
  key is among the keys just pressed and a callback is registered (\<open>None\<close> is falsy, a
  function is truthy). The result pairs the value returned with the state the call
  leaves.
\<close>

definition process_interaction ::
  "'w PlayerController \<Rightarrow> (int \<rightharpoonup> bool) \<Rightarrow> (int \<rightharpoonup> bool) \<Rightarrow> 'w \<Rightarrow> bool \<times> 'w" where
  "process_interaction pc keys_pressed key_just_pressed w =
     (if pressed key_just_pressed (interact_key pc)
      then (case on_interact pc of None \<Rightarrow> (False, w) | Some callback \<Rightarrow> (True, callback w))
      else (False, w))"

definition set_interaction_callback :: "('w \<Rightarrow> 'w) \<Rightarrow> 'w PlayerController \<Rightarrow> 'w PlayerController" where
  "set_interaction_callback callback pc = pc\<lparr>on_interact := Some callback\<rparr>"

section \<open>PlayerSystem\<close>

text \<open>The input state of \<open>PlayerSystem.__init__\<close>: three empty dicts.\<close>

record PlayerSystem =
  keys_pressed :: "int \<rightharpoonup> bool"
  keys_just_pressed :: "int \<rightharpoonup> bool"
  previous_keys :: "int \<rightharpoonup> bool"

definition PlayerSystem_init :: PlayerSystem where
  "PlayerSystem_init =
     \<lparr>keys_pressed = Map.empty, keys_just_pressed = Map.empty, previous_keys = Map.empty\<rparr>"

text \<open>
  \<open>PlayerSystem._update_input_state\<close>. \<open>key_state\<close> is what \<open>pygame.key.get_pressed()\<close>
  returns in this frame, a sequence of booleans indexed by key code.
\<close>

definition update_input_state :: "bool list \<Rightarrow> PlayerSystem \<Rightarrow> PlayerSystem" where
  "update_input_state key_state sys =
     (let prev = keys_pressed sys;
          cur = (\<lambda>key. if 0 \<le> key \<and> nat key < length key_state \<and> key_state ! nat key
                       then Some True else None);
          just = (\<lambda>key. if cur key \<noteq> None \<and> prev key = None then Some True else None)
      in \<lparr>keys_pressed = cur, keys_just_pressed = just, previous_keys = prev\<rparr>)"

text \<open>
  One frame of \<open>PlayerSystem.process\<close> as far as interaction goes: the input state is
  updated, then \<open>_process_entity\<close> calls \<open>process_interaction\<close> of the controller with
  \<open>self.keys_pressed\<close> and \<open>self.keys_just_pressed\<close>.
\<close>

definition interaction_frame ::
  "'w PlayerController \<Rightarrow> bool list \<Rightarrow> PlayerSystem \<times> 'w \<Rightarrow> bool \<times> PlayerSystem \<times> 'w" where
  "interaction_frame pc key_state sw =
     (let sys = update_input_state key_state (fst sw);
          (triggered, w) = process_interaction pc (keys_pressed sys) (keys_just_pressed sys) (snd sw)
      in (triggered, sys, w))"

text \<open>A key state of 512 keys in which exactly the given keys are down.\<close>

definition keys_down :: "nat list \<Rightarrow> bool list" where
  "keys_down ks = map (\<lambda>k. k \<in> set ks) [0..<512]"

section \<open>The indexes stay consistent\<close>

lemma consistent_alt:
  "consistent s \<longleftrightarrow> reg_ok s \<and> keyed s \<and>
     (\<forall>t. type_index (world s) t = holders s (\<lambda>x. t \<in> fst ` set (components x))) \<and>
     (\<forall>tag. tag_index (world s) tag = holders s (\<lambda>x. tag \<in> tags x)) \<and>
     active_ids (world s) = holders s active"
  by (simp add: consistent_def)

lemma in_holders_upd:
  assumes ok: "reg_ok s" and lv: "live s e"
    and reg: "registry (world s') = registry (world s)"
    and en: "ents s' = (ents s)(e := x)"
  shows "i \<in> holders s' P \<longleftrightarrow>
     (if i = entity_id (ents s e) then P x else i \<in> holders s P)"
proof (cases "i = entity_id (ents s e)")
  case True
  have "registry (world s) i = Some e" using lv True by (simp add: live_def)
  then show ?thesis using True by (simp add: holders_def reg en)
next
  case False
  have "\<And>r. registry (world s) i = Some r \<Longrightarrow> r \<noteq> e"
    using ok False by (auto simp: reg_ok_def)
  then have "(\<exists>r. registry (world s) i = Some r \<and> P (((ents s)(e := x)) r))
          \<longleftrightarrow> (\<exists>r. registry (world s) i = Some r \<and> P (ents s r))"
    by (metis fun_upd_other)
  then show ?thesis using False by (simp add: holders_def reg en)
qed

lemma holders_upd:
  assumes "reg_ok s" "live s e"
    and "registry (world s') = registry (world s)"
    and "ents s' = (ents s)(e := x)"
  shows "holders s' P =
     (if P x then insert (entity_id (ents s e)) (holders s P)
      else holders s P - {entity_id (ents s e)})"
proof (rule set_eqI)
  fix i
  have "entity_id (ents s e) \<in> holders s P \<longleftrightarrow> P (ents s e)"
    using assms(2) by (simp add: holders_def live_def)
  then show "i \<in> holders s' P \<longleftrightarrow> i \<in> (if P x then insert (entity_id (ents s e)) (holders s P)
      else holders s P - {entity_id (ents s e)})"
    by (simp add: in_holders_upd[OF assms])
qed

lemma holders_same:
  assumes "reg_ok s" "live s e"
    and "registry (world s') = registry (world s)"
    and "ents s' = (ents s)(e := x)" "P x = P (ents s e)"
  shows "holders s' P = holders s P"
proof (rule set_eqI)
  fix i
  have "entity_id (ents s e) \<in> holders s P \<longleftrightarrow> P (ents s e)"
    using assms(2) by (simp add: holders_def live_def)
  then show "i \<in> holders s' P \<longleftrightarrow> i \<in> holders s P"
    using assms(5) by (simp add: in_holders_upd[OF assms(1-4)])
qed

lemma reg_ok_upd:
  assumes "reg_ok s" 
    and "registry (world s') = registry (world s)" "next_eref s' = next_eref s"
    and "ents s' = (ents s)(e := x)" "entity_id x = entity_id (ents s e)"
  shows "reg_ok s'"
  unfolding reg_ok_def
proof (intro allI impI)
  fix i r assume "registry (world s') i = Some r"
  then have r: "registry (world s) i = Some r" by (simp add: assms(2))
  then have "r < next_eref s" "entity_id (ents s r) = i" using assms(1) by (auto simp: reg_ok_def)
  then show "r < next_eref s' \<and> entity_id (ents s' r) = i"
    using assms(3,4,5) by (cases "r = e") simp_all
qed


lemma create_entity_effect:
  assumes "registry (world s) (entity_id (Entity_init eid uuid)) = None"
  defines "s' \<equiv> snd (create_entity eid uuid s)"
  shows "registry (world s') = (registry (world s))(entity_id (Entity_init eid uuid) \<mapsto> next_eref s)"
    and "next_eref s' = Suc (next_eref s)"
    and "ents s' = (ents s)(next_eref s := Entity_init eid uuid)"
    and "type_index (world s') = type_index (world s)"
    and "tag_index (world s') = tag_index (world s)"
    and "active_ids (world s') = insert (entity_id (Entity_init eid uuid)) (active_ids (world s))"
  using assms(1) unfolding s'_def by (simp_all add: create_entity_def Let_def)

lemma in_holders_new:
  assumes ok: "reg_ok s" and fresh: "registry (world s) i = None"
    and reg: "registry (world s') = (registry (world s))(i \<mapsto> next_eref s)"
    and en: "ents s' = (ents s)(next_eref s := x)"
  shows "j \<in> holders s' P \<longleftrightarrow> (if j = i then P x else j \<in> holders s P)"
proof (cases "j = i")
  case True
  then show ?thesis by (simp add: holders_def reg en)
next
  case False
  have "\<And>r. registry (world s) j = Some r \<Longrightarrow> r \<noteq> next_eref s"
    using ok by (auto simp: reg_ok_def)
  then have "(\<exists>r. registry (world s) j = Some r \<and> P (((ents s)(next_eref s := x)) r))
          \<longleftrightarrow> (\<exists>r. registry (world s) j = Some r \<and> P (ents s r))"
    by (metis fun_upd_other)
  then show ?thesis using False by (simp add: holders_def reg en)
qed

lemma holders_fresh: "registry (world s) i = None \<Longrightarrow> i \<notin> holders s P"
  by (simp add: holders_def)

lemma holders_new:
  assumes "reg_ok s" "registry (world s) i = None"
    and "registry (world s') = (registry (world s))(i \<mapsto> next_eref s)"
    and "ents s' = (ents s)(next_eref s := x)"
  shows "holders s' P = (if P x then insert i (holders s P) else holders s P)"
proof (rule set_eqI)
  fix j
  show "j \<in> holders s' P \<longleftrightarrow> j \<in> (if P x then insert i (holders s P) else holders s P)"
    using holders_fresh[OF assms(2), of P] by (simp add: in_holders_new[OF assms])
qed

lemma reg_ok_new:
  assumes ok: "reg_ok s"
    and reg: "registry (world s') = (registry (world s))(i \<mapsto> next_eref s)"
    and nx: "next_eref s' = Suc (next_eref s)"
    and en: "ents s' = (ents s)(next_eref s := x)" and idx: "entity_id x = i"
  shows "reg_ok s'"
  unfolding reg_ok_def
proof (intro allI impI)
  fix j r assume a: "registry (world s') j = Some r"
  show "r < next_eref s' \<and> entity_id (ents s' r) = j"
  proof (cases "j = i")
    case True
    then have "r = next_eref s" using a by (simp add: reg)
    then show ?thesis using True by (simp add: nx en idx)
  next
    case False
    then have "registry (world s) j = Some r" using a by (simp add: reg)
    then have "r < next_eref s" "entity_id (ents s r) = j" using ok by (auto simp: reg_ok_def)
    then show ?thesis by (simp add: nx en)
  qed
qed

lemma consistent_create_entity:
  assumes c: "consistent s"
  shows "consistent (snd (create_entity eid uuid s))"
proof (cases "registry (world s) (entity_id (Entity_init eid uuid)) = None")
  case False
  then show ?thesis using c by (simp add: create_entity_def Let_def)
next
  case True
  let ?s' = "snd (create_entity eid uuid s)"
  note eff = create_entity_effect[OF True]
  have ok: "reg_ok s" using c by (simp add: consistent_alt)
  note hn = holders_new[OF ok True eff(1) eff(3)]
  have "reg_ok ?s'" by (rule reg_ok_new[OF ok eff(1) eff(2) eff(3)]) simp
  moreover have "keyed ?s'" using c by (simp add: consistent_alt keyed_def eff(3) Entity_init_def)
  moreover have "type_index (world ?s') t = holders ?s' (\<lambda>x. t \<in> fst ` set (components x))" for t
    using c by (simp add: eff(4) hn consistent_alt Entity_init_def)
  moreover have "tag_index (world ?s') tag = holders ?s' (\<lambda>x. tag \<in> tags x)" for tag
    using c by (simp add: eff(5) hn consistent_alt Entity_init_def)
  moreover have "active_ids (world ?s') = holders ?s' active"
    using c by (simp add: eff(6) hn consistent_alt Entity_init_def)
  ultimately show ?thesis by (simp add: consistent_alt)
qed

lemma set_update_D: "(t, c) \<in> set (AList.update k v al) \<Longrightarrow> (t, c) = (k, v) \<or> (t, c) \<in> set al"
  by (induction al) (auto split: if_splits)

lemma set_delete_D: "(t, c) \<in> set (AList.delete k al) \<Longrightarrow> (t, c) \<in> set al"
  by (simp add: AList.delete_eq)

lemmas add_defs = add_component_def Component_hooks_def set_entity_def set_components_def
  entity_component_added_def has_component_def Let_def

lemma add_component_effect:
  assumes "\<not> has_component s e (get_component_type c)"
  defines "s' \<equiv> snd (add_component Component_hooks e c s)"
  shows "registry (world s') = registry (world s)"
    and "next_eref s' = next_eref s"
    and "ents s' = (ents s)(e := (ents s e)\<lparr>components :=
            AList.update (get_component_type c) c (components (ents s e))\<rparr>)"
    and "type_index (world s') = (type_index (world s))(get_component_type c :=
            insert (entity_id (ents s e)) (type_index (world s) (get_component_type c)))"
    and "tag_index (world s') = tag_index (world s)"
    and "active_ids (world s') = active_ids (world s)"
  using assms(1) unfolding s'_def by (simp_all add: add_defs)

lemma consistent_add_component:
  assumes c: "consistent s" and lv: "live s e"
  shows "consistent (snd (add_component Component_hooks e c s))"
proof (cases "has_component s e (get_component_type c)")
  case True
  then show ?thesis using c by (simp add: add_component_def)
next
  case False
  let ?s' = "snd (add_component Component_hooks e c s)"
  let ?T = "get_component_type c"
  let ?x = "(ents s e)\<lparr>components := AList.update ?T c (components (ents s e))\<rparr>"
  note eff = add_component_effect[OF False]
  have ok: "reg_ok s" using c by (simp add: consistent_alt)
  note hu = holders_upd[OF ok lv eff(1) eff(3)]
  note hs = holders_same[OF ok lv eff(1) eff(3)]
  have "reg_ok ?s'" by (rule reg_ok_upd[OF ok eff(1) eff(2) eff(3)]) simp
  moreover have "keyed ?s'" using c by (auto simp: consistent_alt keyed_def eff(3) dest: set_update_D)
  moreover have "type_index (world ?s') t = holders ?s' (\<lambda>x. t \<in> fst ` set (components x))" for t
  proof (cases "t = ?T")
    case True
    then show ?thesis using c by (simp add: eff(4) hu consistent_alt AList.dom_update)
  next
    case False
    have "holders ?s' (\<lambda>x. t \<in> fst ` set (components x)) = holders s (\<lambda>x. t \<in> fst ` set (components x))"
      by (rule hs) (use False in \<open>auto simp: AList.dom_update\<close>)
    then show ?thesis using c False by (simp add: eff(4) consistent_alt)
  qed
  moreover have "tag_index (world ?s') tag = holders ?s' (\<lambda>x. tag \<in> tags x)" for tag
    using c by (simp add: eff(5) hs consistent_alt)
  moreover have "active_ids (world ?s') = holders ?s' active"
    using c by (simp add: eff(6) hs consistent_alt)
  ultimately show ?thesis by (simp add: consistent_alt)
qed

lemma get_component_has:
  "get_component s e t = Some c \<Longrightarrow> has_component s e t"
  unfolding get_component_def has_component_def
  by (metis fst_conv image_eqI map_of_SomeD)

lemma get_component_None:
  "get_component s e t = None \<Longrightarrow> \<not> has_component s e t"
  unfolding get_component_def has_component_def
  by (simp add: map_of_eq_None_iff)

lemmas rem_defs = remove_component_def Component_hooks_def set_components_def
  entity_component_removed_def Let_def

lemma remove_component_absent:
  "get_component s e t = None \<Longrightarrow> remove_component hk e t s = (Inr None, s)"
  by (simp add: remove_component_def)

lemma remove_component_effect:
  assumes "get_component s e t = Some c"
  defines "s' \<equiv> snd (remove_component Component_hooks e t s)"
  shows "fst (remove_component Component_hooks e t s) = Inr (Some c)"
    and "registry (world s') = registry (world s)"
    and "next_eref s' = next_eref s"
    and "ents s' = (ents s)(e := (ents s e)\<lparr>components := AList.delete t (components (ents s e))\<rparr>)"
    and "type_index (world s') = (type_index (world s))(get_component_type c :=
            type_index (world s) (get_component_type c) - {entity_id (ents s e)})"
    and "tag_index (world s') = tag_index (world s)"
    and "active_ids (world s') = active_ids (world s)"
    and "comps s' = comps s"
  using assms(1) get_component_has[OF assms(1)] unfolding s'_def by (simp_all add: rem_defs)

lemma get_component_keyed:
  "keyed s \<Longrightarrow> get_component s e t = Some c \<Longrightarrow> get_component_type c = t"
  unfolding keyed_def get_component_def by (blast dest: map_of_SomeD)

lemma keys_delete: "fst ` set (AList.delete t al) = fst ` set al - {t}"
  by (induction al) auto

lemma consistent_remove_component:
  assumes c: "consistent s" and lv: "live s e"
  shows "consistent (snd (remove_component Component_hooks e t s))"
proof (cases "get_component s e t")
  case None
  then show ?thesis using c by (simp add: remove_component_absent)
next
  case (Some cr)
  let ?s' = "snd (remove_component Component_hooks e t s)"
  note eff = remove_component_effect[OF Some]
  have ok: "reg_ok s" and ky: "keyed s" using c by (simp_all add: consistent_alt)
  have T: "get_component_type cr = t" by (rule get_component_keyed[OF ky Some])
  note hu = holders_upd[OF ok lv eff(2) eff(4)]
  note hs = holders_same[OF ok lv eff(2) eff(4)]
  have "reg_ok ?s'" by (rule reg_ok_upd[OF ok eff(2) eff(3) eff(4)]) simp
  moreover have "keyed ?s'" using ky by (auto simp: keyed_def eff(4) dest: set_delete_D)
  moreover have "type_index (world ?s') u = holders ?s' (\<lambda>x. u \<in> fst ` set (components x))" for u
  proof (cases "u = t")
    case True
    then show ?thesis using c by (simp add: eff(5) T hu consistent_alt keys_delete)
  next
    case False
    have "holders ?s' (\<lambda>x. u \<in> fst ` set (components x)) = holders s (\<lambda>x. u \<in> fst ` set (components x))"
      by (rule hs) (use False in \<open>auto simp: keys_delete\<close>)
    then show ?thesis using c False by (simp add: eff(5) T consistent_alt)
  qed
  moreover have "tag_index (world ?s') tag = holders ?s' (\<lambda>x. tag \<in> tags x)" for tag
    using c by (simp add: eff(6) hs consistent_alt)
  moreover have "active_ids (world ?s') = holders ?s' active"
    using c by (simp add: eff(7) hs consistent_alt)
  ultimately show ?thesis by (simp add: consistent_alt)
qed

lemma add_tag_effect:
  fixes e tag s
  defines "s' \<equiv> snd (add_tag e tag s)"
  shows "registry (world s') = registry (world s)"
    and "next_eref s' = next_eref s"
    and "ents s' = (ents s)(e := (ents s e)\<lparr>tags := insert tag (tags (ents s e))\<rparr>)"
    and "type_index (world s') = type_index (world s)"
    and "tag_index (world s') = (tag_index (world s))(tag :=
            insert (entity_id (ents s e)) (tag_index (world s) tag))"
    and "active_ids (world s') = active_ids (world s)"
    and "comps s' = comps s"
  unfolding s'_def by (simp_all add: add_tag_def entity_tag_added_def Let_def)

lemma consistent_add_tag:
  assumes c: "consistent s" and lv: "live s e"
  shows "consistent (snd (add_tag e tag s))"
proof -
  let ?s' = "snd (add_tag e tag s)"
  note eff = add_tag_effect[of e tag s]
  have ok: "reg_ok s" and ky: "keyed s" using c by (simp_all add: consistent_alt)
  note hu = holders_upd[OF ok lv eff(1) eff(3)]
  note hs = holders_same[OF ok lv eff(1) eff(3)]
  have "reg_ok ?s'" by (rule reg_ok_upd[OF ok eff(1) eff(2) eff(3)]) simp
  moreover have "keyed ?s'" using ky by (auto simp: keyed_def eff(3))
  moreover have "type_index (world ?s') u = holders ?s' (\<lambda>x. u \<in> fst ` set (components x))" for u
    using c by (simp add: eff(4) hs consistent_alt)
  moreover have "tag_index (world ?s') g = holders ?s' (\<lambda>x. g \<in> tags x)" for g
  proof (cases "g = tag")
    case True
    then show ?thesis using c by (simp add: eff(5) hu consistent_alt)
  next
    case False
    have "holders ?s' (\<lambda>x. g \<in> tags x) = holders s (\<lambda>x. g \<in> tags x)"
      by (rule hs) (use False in auto)
    then show ?thesis using c False by (simp add: eff(5) consistent_alt)
  qed
  moreover have "active_ids (world ?s') = holders ?s' active"
    using c by (simp add: eff(6) hs consistent_alt)
  ultimately show ?thesis by (simp add: consistent_alt)
qed

lemma remove_tag_absent: "\<not> has_tag s e tag \<Longrightarrow> remove_tag e tag s = (False, s)"
  by (simp add: remove_tag_def)

lemma remove_tag_effect:
  assumes "has_tag s e tag"
  defines "s' \<equiv> snd (remove_tag e tag s)"
  shows "registry (world s') = registry (world s)"
    and "next_eref s' = next_eref s"
    and "ents s' = (ents s)(e := (ents s e)\<lparr>tags := tags (ents s e) - {tag}\<rparr>)"
    and "type_index (world s') = type_index (world s)"
    and "tag_index (world s') = (tag_index (world s))(tag :=
            tag_index (world s) tag - {entity_id (ents s e)})"
    and "active_ids (world s') = active_ids (world s)"
    and "comps s' = comps s"
  using assms(1) unfolding s'_def by (simp_all add: remove_tag_def entity_tag_removed_def Let_def)

lemma consistent_remove_tag:
  assumes c: "consistent s" and lv: "live s e"
  shows "consistent (snd (remove_tag e tag s))"
proof (cases "has_tag s e tag")
  case False
  then show ?thesis using c by (simp add: remove_tag_absent)
next
  case True
  let ?s' = "snd (remove_tag e tag s)"
  note eff = remove_tag_effect[OF True]
  have ok: "reg_ok s" and ky: "keyed s" using c by (simp_all add: consistent_alt)
  note hu = holders_upd[OF ok lv eff(1) eff(3)]
  note hs = holders_same[OF ok lv eff(1) eff(3)]
  have "reg_ok ?s'" by (rule reg_ok_upd[OF ok eff(1) eff(2) eff(3)]) simp
  moreover have "keyed ?s'" using ky by (auto simp: keyed_def eff(3))
  moreover have "type_index (world ?s') u = holders ?s' (\<lambda>x. u \<in> fst ` set (components x))" for u
    using c by (simp add: eff(4) hs consistent_alt)
  moreover have "tag_index (world ?s') g = holders ?s' (\<lambda>x. g \<in> tags x)" for g
  proof (cases "g = tag")
    case True
    then show ?thesis using c by (simp add: eff(5) hu consistent_alt)
  next
    case False
    have "holders ?s' (\<lambda>x. g \<in> tags x) = holders s (\<lambda>x. g \<in> tags x)"
      by (rule hs) (use False in auto)
    then show ?thesis using c False by (simp add: eff(5) consistent_alt)
  qed
  moreover have "active_ids (world ?s') = holders ?s' active"
    using c by (simp add: eff(6) hs consistent_alt)
  ultimately show ?thesis by (simp add: consistent_alt)
qed

lemma set_active_same: "active (ents s e) = a \<Longrightarrow> set_active e a s = (e, s)"
  by (simp add: set_active_def)

lemma set_active_effect:
  assumes "active (ents s e) \<noteq> a"
  defines "s' \<equiv> snd (set_active e a s)"
  shows "registry (world s') = registry (world s)"
    and "next_eref s' = next_eref s"
    and "ents s' = (ents s)(e := (ents s e)\<lparr>active := a\<rparr>)"
    and "type_index (world s') = type_index (world s)"
    and "tag_index (world s') = tag_index (world s)"
    and "active_ids (world s') = (if a then insert (entity_id (ents s e)) (active_ids (world s))
            else active_ids (world s) - {entity_id (ents s e)})"
    and "comps s' = comps s"
  using assms(1) unfolding s'_def by (simp_all add: set_active_def entity_active_changed_def Let_def)

lemma consistent_set_active:
  assumes c: "consistent s" and lv: "live s e"
  shows "consistent (snd (set_active e a s))"
proof (cases "active (ents s e) = a")
  case True
  then show ?thesis using c by (simp add: set_active_same)
next
  case False
  let ?s' = "snd (set_active e a s)"
  note eff = set_active_effect[OF False]
  have ok: "reg_ok s" and ky: "keyed s" using c by (simp_all add: consistent_alt)
  note hu = holders_upd[OF ok lv eff(1) eff(3)]
  note hs = holders_same[OF ok lv eff(1) eff(3)]
  have "reg_ok ?s'" by (rule reg_ok_upd[OF ok eff(1) eff(2) eff(3)]) simp
  moreover have "keyed ?s'" using ky by (auto simp: keyed_def eff(3))
  moreover have "type_index (world ?s') u = holders ?s' (\<lambda>x. u \<in> fst ` set (components x))" for u
    using c by (simp add: eff(4) hs consistent_alt)
  moreover have "tag_index (world ?s') g = holders ?s' (\<lambda>x. g \<in> tags x)" for g
    using c by (simp add: eff(5) hs consistent_alt)
  moreover have "active_ids (world ?s') = holders ?s' active"
    using c by (simp add: eff(6) hu consistent_alt)
  ultimately show ?thesis by (simp add: consistent_alt)
qed

lemma remove_component_frame:
  fixes e t s
  defines "s' \<equiv> snd (remove_component Component_hooks e t s)"
  shows "registry (world s') = registry (world s)"
    and "next_eref s' = next_eref s"
    and "ents s' = (ents s)(e := (ents s e)\<lparr>components := AList.delete t (components (ents s e))\<rparr>)"
    and "comps s' = comps s"
    and "\<exists>r. fst (remove_component Component_hooks e t s) = Inr r"
proof -
  have "registry (world s') = registry (world s) \<and> next_eref s' = next_eref s \<and>
    ents s' = (ents s)(e := (ents s e)\<lparr>components := AList.delete t (components (ents s e))\<rparr>) \<and>
    comps s' = comps s \<and> (\<exists>r. fst (remove_component Component_hooks e t s) = Inr r)"
  proof (cases "get_component s e t")
    case None
    have "AList.delete t (components (ents s e)) = components (ents s e)"
      using get_component_None[OF None] by (simp add: has_component_def)
    then show ?thesis using None by (simp add: s'_def remove_component_absent)
  next
    case (Some c)
    show ?thesis using remove_component_effect[OF Some] by (simp add: s'_def)
  qed
  then show "registry (world s') = registry (world s)"
    and "next_eref s' = next_eref s"
    and "ents s' = (ents s)(e := (ents s e)\<lparr>components := AList.delete t (components (ents s e))\<rparr>)"
    and "comps s' = comps s"
    and "\<exists>r. fst (remove_component Component_hooks e t s) = Inr r"
    by blast+
qed

lemma live_remove_component:
  "live (snd (remove_component Component_hooks e t s)) e' \<longleftrightarrow> live s e'"
  by (simp add: live_def remove_component_frame)

lemma remove_all_Cons:
  "remove_all Component_hooks e (t # ts) s =
     remove_all Component_hooks e ts (snd (remove_component Component_hooks e t s))"
proof -
  obtain r where "fst (remove_component Component_hooks e t s) = Inr r"
    using remove_component_frame(5) by blast
  then show ?thesis by (cases "remove_component Component_hooks e t s") simp
qed

lemma remove_all_ok: "fst (remove_all Component_hooks e ts s) = Inr ()"
  by (induction ts arbitrary: s) (simp_all add: remove_all_Cons del: remove_all.simps(2))

lemma remove_all_frame:
  fixes e ts s
  defines "s' \<equiv> snd (remove_all Component_hooks e ts s)"
  shows "registry (world s') = registry (world s) \<and> next_eref s' = next_eref s \<and>
     comps s' = comps s \<and>
     (\<forall>r. entity_id (ents s' r) = entity_id (ents s r) \<and> tags (ents s' r) = tags (ents s r) \<and>
          active (ents s' r) = active (ents s r) \<and>
          (r \<noteq> e \<longrightarrow> components (ents s' r) = components (ents s r))) \<and>
     fst ` set (components (ents s' e)) = fst ` set (components (ents s e)) - set ts"
  unfolding s'_def
proof (induction ts arbitrary: s)
  case Nil
  then show ?case by simp
next
  case (Cons t ts)
  let ?s1 = "snd (remove_component Component_hooks e t s)"
  note f = remove_component_frame[of e t s]
  show ?case
    unfolding remove_all_Cons
    using Cons.IH[of ?s1] by (auto simp: f(1-4) keys_delete)
qed

lemma consistent_remove_all:
  "consistent s \<Longrightarrow> live s e \<Longrightarrow> consistent (snd (remove_all Component_hooks e ts s))"
proof (induction ts arbitrary: s)
  case Nil
  then show ?case by simp
next
  case (Cons t ts)
  show ?case
    unfolding remove_all_Cons
    by (rule Cons.IH) (simp_all add: consistent_remove_component Cons.prems live_remove_component)
qed

lemma live_remove_all:
  "live (snd (remove_all Component_hooks e ts s)) e' \<longleftrightarrow> live s e'"
  using remove_all_frame[of e ts s] by (simp add: live_def)

lemma destroy_eq:
  "destroy Component_hooks e s =
     (Inr (), remove_entity e (snd (remove_all Component_hooks e (map fst (components (ents s e))) s)))"
proof -
  let ?ra = "remove_all Component_hooks e (map fst (components (ents s e))) s"
  have "fst ?ra = Inr ()" by (rule remove_all_ok)
  then show ?thesis unfolding destroy_def by (cases ?ra) simp
qed

lemma remove_entity_effect:
  fixes e s
  defines "s' \<equiv> remove_entity e s" and "i \<equiv> entity_id (ents s e)"
  shows "registry (world s') = (registry (world s))(i := None)"
    and "next_eref s' = next_eref s"
    and "ents s' = ents s"
    and "type_index (world s') t = type_index (world s) t - {i}"
    and "tag_index (world s') tag = tag_index (world s) tag - {i}"
    and "active_ids (world s') = active_ids (world s) - {i}"
    and "comps s' = comps s"
  unfolding s'_def i_def by (simp_all add: remove_entity_def Let_def)

lemma holders_removed:
  assumes "registry (world s') = (registry (world s))(i := None)" "ents s' = ents s"
  shows "holders s' P = holders s P - {i}"
  unfolding holders_def assms by auto

lemma consistent_remove_entity:
  assumes c: "consistent s"
  shows "consistent (remove_entity e s)"
proof -
  let ?s' = "remove_entity e s"
  note eff = remove_entity_effect[of e s]
  note hr = holders_removed[OF eff(1) eff(3)]
  have "reg_ok ?s'" using c unfolding consistent_alt reg_ok_def eff(1,2,3)
    by (auto split: if_splits)
  moreover have "keyed ?s'" using c by (simp add: consistent_alt keyed_def eff(3))
  ultimately show ?thesis using c by (simp add: consistent_alt eff(4,5,6) hr)
qed

lemma consistent_destroy:
  "consistent s \<Longrightarrow> live s e \<Longrightarrow> consistent (snd (destroy Component_hooks e s))"
  by (simp add: destroy_eq consistent_remove_entity consistent_remove_all)

lemma consistent_perform:
  assumes "consistent s" and "\<And>e. target x = Some e \<Longrightarrow> live s e"
  shows "consistent (perform x s)"
  using assms
  by (cases x)
     (simp_all add: consistent_create_entity consistent_add_component consistent_remove_component
        consistent_add_tag consistent_remove_tag consistent_set_active consistent_destroy)

lemma consistent_apply_op:
  "consistent s \<Longrightarrow> apply_op s x = Some s' \<Longrightarrow> consistent s'"
  unfolding apply_op_def
  by (auto split: option.splits if_splits intro: consistent_perform)

lemma consistent_run_ops:
  "consistent s \<Longrightarrow> run_ops s xs = Some s' \<Longrightarrow> consistent s'"
proof (induction xs arbitrary: s)
  case Nil
  then show ?case by simp
next
  case (Cons x xs)
  then show ?case by (auto split: option.splits dest: consistent_apply_op)
qed

lemma fold_Int: "fold (\<inter>) cs c = c \<inter> \<Inter>(set cs)"
  by (induction cs arbitrary: c) auto

lemma candidates_Inter:
  "(case sort_key f xs of [] \<Rightarrow> D | c # cs \<Rightarrow> fold (\<inter>) cs c) =
     (if xs = [] then D else \<Inter>(set xs))"
proof (cases "sort_key f xs")
  case Nil
  then have "xs = []" by (metis length_0_conv length_sort)
  then show ?thesis using Nil by simp
next
  case (Cons c cs)
  have "set xs = set (c # cs)" using Cons by (metis set_sort)
  moreover have "xs \<noteq> []" using Cons by auto
  ultimately show ?thesis using Cons by (simp add: fold_Int)
qed

lemma live_iff_registered:
  "reg_ok s \<Longrightarrow> live s r \<longleftrightarrow> (\<exists>i. registry (world s) i = Some r)"
  unfolding live_def reg_ok_def by auto

lemma in_these_image:
  "r \<in> Option.these (f ` A) \<longleftrightarrow> (\<exists>i\<in>A. f i = Some r)"
  by (auto simp: Option.these_def image_iff)

lemma query_eq:
  assumes c: "consistent s"
  shows "query s ts incl =
     {e. live s e \<and> (incl \<or> active (ents s e)) \<and> (\<forall>t \<in> set ts. has_component s e t)}"
proof (rule set_eqI)
  fix r
  have ok: "reg_ok s" using c by (simp add: consistent_alt)
  have ti: "\<And>t. type_index (world s) t = holders s (\<lambda>x. t \<in> fst ` set (components x))"
    and ai: "active_ids (world s) = holders s active"
    using c by (simp_all add: consistent_alt)
  define ids where "ids = (if ts = [] then dom (registry (world s)) else \<Inter>(set (map (type_index (world s)) ts)))"
  have ids: "i \<in> ids \<longleftrightarrow> (\<exists>r'. registry (world s) i = Some r' \<and> (\<forall>t\<in>set ts. has_component s r' t))" for i
  proof (cases "ts = []")
    case True
    then show ?thesis by (auto simp: ids_def)
  next
    case False
    then obtain t0 where t0: "t0 \<in> set ts" by (cases ts) auto
    show ?thesis
    proof
      assume a: "i \<in> ids"
      then have "i \<in> type_index (world s) t0" using False t0 by (auto simp: ids_def)
      then obtain r' where r': "registry (world s) i = Some r'" by (auto simp: ti holders_def)
      have "has_component s r' t" if "t \<in> set ts" for t
      proof -
        have "i \<in> type_index (world s) t" using a False that by (auto simp: ids_def)
        then show ?thesis using r' by (auto simp: ti holders_def has_component_def)
      qed
      then show "\<exists>r'. registry (world s) i = Some r' \<and> (\<forall>t\<in>set ts. has_component s r' t)"
        using r' by blast
    next
      assume "\<exists>r'. registry (world s) i = Some r' \<and> (\<forall>t\<in>set ts. has_component s r' t)"
      then show "i \<in> ids" using False by (auto simp: ids_def ti holders_def has_component_def)
    qed
  qed
  have q: "query s ts incl =
      Option.these (registry (world s) ` (if incl then ids else ids \<inter> active_ids (world s)))"
    unfolding query_def Let_def candidates_Inter ids_def by simp
  show "r \<in> query s ts incl \<longleftrightarrow>
      r \<in> {e. live s e \<and> (incl \<or> active (ents s e)) \<and> (\<forall>t \<in> set ts. has_component s e t)}"
  proof (cases incl)
    case True
    then show ?thesis
      unfolding q in_these_image using ok
      by (auto simp: ids live_iff_registered)
  next
    case False
    have act: "i \<in> active_ids (world s) \<longleftrightarrow> (\<exists>r'. registry (world s) i = Some r' \<and> active (ents s r'))" for i
      by (simp add: ai holders_def)
    show ?thesis
      unfolding q in_these_image using ok False
      by (auto simp: ids act live_iff_registered)
  qed
qed

lemma gone_keep:
  assumes "gone s e" "registry (world s') = registry (world s)" "next_eref s' = next_eref s"
    "entity_id (ents s' e) = entity_id (ents s e)"
  shows "gone s' e"
  using assms by (simp add: gone_def live_def)

lemma add_component_frame:
  fixes e c s
  defines "s' \<equiv> snd (add_component Component_hooks e c s)"
  shows "registry (world s') = registry (world s)"
    and "next_eref s' = next_eref s"
    and "entity_id (ents s' r) = entity_id (ents s r)"
  unfolding s'_def by (simp_all add: add_defs)

lemma gone_perform:
  assumes g: "gone s e"
  shows "gone (perform x s) e"
proof (cases x)
  case (Create eid uuid)
  show ?thesis
  proof (cases "registry (world s) (entity_id (Entity_init eid uuid)) = None")
    case False
    then show ?thesis using g Create by (simp add: create_entity_def Let_def)
  next
    case True
    note eff = create_entity_effect[OF True]
    have "e \<noteq> next_eref s" using g by (auto simp: gone_def)
    then show ?thesis using g Create unfolding gone_def live_def
      by (auto simp: eff(1,2,3) split: if_splits)
  qed
next
  case (Attach e' c)
  then show ?thesis using g by (auto intro!: gone_keep[of s] simp: add_component_frame)
next
  case (Detach e' t)
  then show ?thesis using g by (auto intro!: gone_keep[of s] simp: remove_component_frame)
next
  case (AddTag e' tag)
  then show ?thesis using g by (auto intro!: gone_keep[of s] simp: add_tag_effect)
next
  case (RemoveTag e' tag)
  then show ?thesis using g
    by (cases "has_tag s e' tag") (auto intro!: gone_keep[of s] simp: remove_tag_effect remove_tag_absent)
next
  case (SetActive e' a)
  then show ?thesis using g
    by (cases "active (ents s e') = a") (auto intro!: gone_keep[of s] simp: set_active_effect set_active_same)
next
  case (Destroy e')
  let ?s1 = "snd (remove_all Component_hooks e' (map fst (components (ents s e'))) s)"
  have g1: "gone ?s1 e"
    using g remove_all_frame[of e' "map fst (components (ents s e'))" s]
    by (auto intro!: gone_keep[of s])
  have "gone (remove_entity e' ?s1) e"
    using g1 unfolding gone_def live_def by (auto simp: remove_entity_effect split: if_splits)
  then show ?thesis using Destroy by (simp add: destroy_eq)
qed

lemma gone_run_ops: "gone s e \<Longrightarrow> run_ops s xs = Some s' \<Longrightarrow> gone s' e"
proof (induction xs arbitrary: s)
  case Nil
  then show ?case by simp
next
  case (Cons x xs)
  from Cons.prems(2) obtain s1 where a: "apply_op s x = Some s1" and r: "run_ops s1 xs = Some s'"
    by (auto split: option.splits)
  have "s1 = perform x s" using a by (auto simp: apply_op_def split: option.splits if_splits)
  then have "gone s1 e" using Cons.prems(1) by (simp add: gone_perform)
  then show ?case using Cons.IH r by blast
qed

lemma query_live: "consistent s \<Longrightarrow> e \<in> query s ts incl \<Longrightarrow> live s e"
  by (simp add: query_eq)

lemmas eval_defs = demo_store_def demo_ops_def apply_op_def live_def World_init_def
  create_entity_def Entity_init_def add_component_def remove_component_def
  has_component_def get_component_def set_entity_def get_entity_def set_components_def
  entity_component_added_def entity_component_removed_def Component_hooks_def
  add_tag_def entity_tag_added_def remove_tag_def entity_tag_removed_def has_tag_def
  set_active_def entity_active_changed_def is_active_def remove_entity_def destroy_def
  query_def Let_def

lemma demo_run: "run_ops World_init demo_ops = Some demo_store"
  by (simp add: eval_defs)

lemma consistent_World_init: "consistent World_init"
  by (simp add: consistent_def reg_ok_def keyed_def holders_def World_init_def Entity_init_def)

lemma reachable_consistent: "run_ops World_init xs = Some s \<Longrightarrow> consistent s"
  by (rule consistent_run_ops[OF consistent_World_init])


lemma remove_all_fold:
  "fst (remove_all hk e ts s) = Inr () \<Longrightarrow>
     snd (remove_all hk e ts s) = fold (\<lambda>t s. snd (remove_component hk e t s)) ts s"
proof (induction ts arbitrary: s)
  case Nil
  then show ?case by simp
next
  case (Cons t ts)
  obtain r s1 where rc: "remove_component hk e t s = (r, s1)" by (cases "remove_component hk e t s")
  show ?case
  proof (cases r)
    case (Inl err)
    then show ?thesis using Cons.prems rc by simp
  next
    case (Inr v)
    then have "remove_all hk e (t # ts) s = remove_all hk e ts s1" using rc by simp
    then show ?thesis using Cons.IH[of s1] Cons.prems rc by simp
  qed
qed

lemma destroy_fold:
  assumes "fst (remove_all hk e (map fst (components (ents s e))) s) = Inr ()"
  shows "destroy hk e s =
     (Inr (), remove_entity e
        (fold (\<lambda>t s. snd (remove_component hk e t s)) (map fst (components (ents s e))) s))"
proof -
  let ?ra = "remove_all hk e (map fst (components (ents s e))) s"
  have "destroy hk e s = (Inr (), remove_entity e (snd ?ra))"
    using assms unfolding destroy_def by (cases ?ra) simp
  then show ?thesis using remove_all_fold[OF assms] by simp
qed

lemma destroy_post:
  assumes c: "consistent s" and lv: "live s e"
  defines "s' \<equiv> snd (destroy Component_hooks e s)"
  shows "components (ents s' e) = []"
    and "registry (world s') (entity_id (ents s' e)) = None"
    and "entity_id (ents s' e) \<notin> type_index (world s') t"
    and "entity_id (ents s' e) \<notin> tag_index (world s') tag"
    and "entity_id (ents s' e) \<notin> active_ids (world s')"
    and "consistent s'" and "gone s' e"
proof -
  let ?ks = "map fst (components (ents s e))"
  let ?s1 = "snd (remove_all Component_hooks e ?ks s)"
  have s': "s' = remove_entity e ?s1" by (simp add: s'_def destroy_eq)
  note fr = remove_all_frame[of e ?ks s]
  note eff = remove_entity_effect[of e ?s1]
  have "fst ` set (components (ents ?s1 e)) = {}" using fr by simp
  then show "components (ents s' e) = []" by (simp add: s' eff(3))
  show "registry (world s') (entity_id (ents s' e)) = None" by (simp add: s' eff(1,3))
  show "entity_id (ents s' e) \<notin> type_index (world s') t" by (simp add: s' eff(3,4))
  show "entity_id (ents s' e) \<notin> tag_index (world s') tag" by (simp add: s' eff(3,5))
  show "entity_id (ents s' e) \<notin> active_ids (world s')" by (simp add: s' eff(3,6))
  show "consistent s'" using c lv by (simp add: s'_def consistent_destroy)
  have "e < next_eref s" using c lv by (auto simp: consistent_alt reg_ok_def live_def)
  then have "e < next_eref s'" using fr by (simp add: s' eff(2))
  moreover have "\<not> live s' e" by (simp add: live_def s' eff(1,3))
  ultimately show "gone s' e" by (simp add: gone_def)
qed


section \<open>Bounds on the rounded displacement\<close>

lemma sqrt2_bounds: "14142135 / 10000000 < sqrt 2" "sqrt 2 < 14142136 / 10000000"
proof -
  show "14142135 / 10000000 < sqrt 2"
    by (rule real_less_rsqrt) (simp add: power2_eq_square)
  show "sqrt 2 < 14142136 / 10000000"
    by (rule real_less_lsqrt) (simp_all add: power2_eq_square)
qed

lemma fl_pos:
  assumes R: "binary64_rounding fl" and "1 / 4 \<le> a" "a \<le> x" "x \<le> b" "b \<le> 1024"
  shows "a - a / 2 ^ 52 \<le> fl x" "fl x \<le> b + b / 2 ^ 52"
proof -
  have x: "1 / 4 \<le> \<bar>x\<bar> \<and> \<bar>x\<bar> \<le> 1024" using assms by simp
  have "\<bar>fl x - x\<bar> \<le> \<bar>x\<bar> / 2 ^ 52" using R x unfolding binary64_rounding_def by blast
  moreover have "\<bar>x\<bar> = x" using assms by simp
  ultimately have e: "\<bar>fl x - x\<bar> \<le> x / 2 ^ 52" by simp
  have m1: "a / 2 ^ 52 \<le> x / 2 ^ 52" using assms by (simp add: divide_right_mono)
  have m2: "x / 2 ^ 52 \<le> b / 2 ^ 52" using assms by (simp add: divide_right_mono)
  have k: "x / 2 ^ 52 \<le> x" using assms by (simp add: field_simps)
  have "a - a / 2 ^ 52 \<le> x - x / 2 ^ 52"
  proof -
    have "x - a \<ge> (x - a) / 2 ^ 52" using assms by (simp add: field_simps)
    then show ?thesis by (simp add: diff_divide_distrib)
  qed
  then show "a - a / 2 ^ 52 \<le> fl x" using e by linarith
  show "fl x \<le> b + b / 2 ^ 52" using e m2 assms by linarith
qed

lemma fl_neg:
  assumes R: "binary64_rounding fl" and "1 / 4 \<le> a" "a \<le> - x" "- x \<le> b" "b \<le> 1024"
  shows "- (b + b / 2 ^ 52) \<le> fl x" "fl x \<le> - (a - a / 2 ^ 52)"
proof -
  have x: "1 / 4 \<le> \<bar>x\<bar> \<and> \<bar>x\<bar> \<le> 1024" using assms by simp
  have "\<bar>fl x - x\<bar> \<le> \<bar>x\<bar> / 2 ^ 52" using R x unfolding binary64_rounding_def by blast
  moreover have "\<bar>x\<bar> = - x" using assms by simp
  ultimately have e: "\<bar>fl x - x\<bar> \<le> (- x) / 2 ^ 52" by simp
  have m2: "(- x) / 2 ^ 52 \<le> b / 2 ^ 52" using assms by (simp add: divide_right_mono)
  have "a - a / 2 ^ 52 \<le> (- x) - (- x) / 2 ^ 52"
  proof -
    have "(- x) - a \<ge> ((- x) - a) / 2 ^ 52" using assms by (simp add: field_simps)
    then show ?thesis by (simp add: diff_divide_distrib)
  qed
  then show "fl x \<le> - (a - a / 2 ^ 52)" using e by linarith
  show "- (b + b / 2 ^ 52) \<le> fl x" using e m2 assms by linarith
qed

lemma diagonal_input:
  assumes R: "binary64_rounding fl"
    and keys: "move_keys pc ''up'' = Some ku" "move_keys pc ''down'' = Some kd"
      "move_keys pc ''left'' = Some kl" "move_keys pc ''right'' = Some kr"
    and pr: "pressed keys ku" "\<not> pressed keys kd" "\<not> pressed keys kl" "pressed keys kr"
      "\<not> pressed keys (sprint_key pc)"
    and L: "fl (sqrt 2) \<noteq> 0"
  shows "fst (process_input fl pc dt keys) =
     Inr (fl (fl (fl (1 / fl (sqrt 2)) * move_speed pc) * dt),
          fl (fl (fl (- 1 / fl (sqrt 2)) * move_speed pc) * dt))"
proof -
  have f: "fl 0 = 0" "fl 1 = 1" "fl (- 1) = - 1" "fl 2 = 2"
    using R by (simp_all add: binary64_rounding_def)
  show ?thesis
    using keys pr L
    by (simp add: process_input_def key_step_def normalize_diagonal_def scale_movement_def
        Let_def f)
qed

lemma length_bounds:
  assumes R: "binary64_rounding fl"
  shows "14142134 / 10000000 \<le> fl (sqrt 2)" "fl (sqrt 2) \<le> 14142137 / 10000000"
proof -
  note b = fl_pos[OF R, of "14142135 / 10000000" "sqrt 2" "14142136 / 10000000"]
  have lo: "14142135 / 10000000 - (14142135 / 10000000) / 2 ^ 52 \<le> fl (sqrt 2)"
    using sqrt2_bounds by (intro b) simp_all
  have hi: "fl (sqrt 2) \<le> 14142136 / 10000000 + (14142136 / 10000000) / 2 ^ 52"
    using sqrt2_bounds by (intro b) simp_all
  show "14142134 / 10000000 \<le> fl (sqrt 2)" using lo by simp
  show "fl (sqrt 2) \<le> 14142137 / 10000000" using hi by simp
qed

lemma recip_bounds:
  assumes R: "binary64_rounding fl"
  shows "7071067 / 10000000 \<le> 1 / fl (sqrt 2)" "1 / fl (sqrt 2) \<le> 7071069 / 10000000"
proof -
  note l = length_bounds[OF R]
  have pos: "0 < fl (sqrt 2)" using l(1) by linarith
  show "7071067 / 10000000 \<le> 1 / fl (sqrt 2)"
    using l(2) pos by (simp add: pos_le_divide_eq)
  show "1 / fl (sqrt 2) \<le> 7071069 / 10000000"
    using l(1) pos by (simp add: pos_divide_le_eq)
qed

lemma direction_bounds:
  assumes R: "binary64_rounding fl"
  shows "7071066 / 10000000 \<le> fl (1 / fl (sqrt 2))" "fl (1 / fl (sqrt 2)) \<le> 707107 / 1000000"
    and "- (707107 / 1000000) \<le> fl (- 1 / fl (sqrt 2))" "fl (- 1 / fl (sqrt 2)) \<le> - (7071066 / 10000000)"
proof -
  note q = recip_bounds[OF R]
  note b = fl_pos[OF R, of "7071067 / 10000000" "1 / fl (sqrt 2)" "7071069 / 10000000"]
  have "7071067 / 10000000 - (7071067 / 10000000) / 2 ^ 52 \<le> fl (1 / fl (sqrt 2))"
    using q by (intro b) simp_all
  then show "7071066 / 10000000 \<le> fl (1 / fl (sqrt 2))" by simp
  have "fl (1 / fl (sqrt 2)) \<le> 7071069 / 10000000 + (7071069 / 10000000) / 2 ^ 52"
    using q by (intro b) simp_all
  then show "fl (1 / fl (sqrt 2)) \<le> 707107 / 1000000" by simp
  note n = fl_neg[OF R, of "7071067 / 10000000" "- 1 / fl (sqrt 2)" "7071069 / 10000000"]
  have "- (7071069 / 10000000 + (7071069 / 10000000) / 2 ^ 52) \<le> fl (- 1 / fl (sqrt 2))"
    using q by (intro n) simp_all
  then show "- (707107 / 1000000) \<le> fl (- 1 / fl (sqrt 2))" by simp
  have "fl (- 1 / fl (sqrt 2)) \<le> - (7071067 / 10000000 - (7071067 / 10000000) / 2 ^ 52)"
    using q by (intro n) simp_all
  then show "fl (- 1 / fl (sqrt 2)) \<le> - (7071066 / 10000000)" by simp
qed

lemma displacement_bounds:
  assumes R: "binary64_rounding fl"
  defines "mx \<equiv> fl (fl (fl (1 / fl (sqrt 2)) * 150) * 1)"
    and "my \<equiv> fl (fl (fl (- 1 / fl (sqrt 2)) * 150) * 1)"
  shows "1060659 / 10000 \<le> mx" "mx \<le> 1060661 / 10000"
    and "- (1060661 / 10000) \<le> my" "my \<le> - (1060659 / 10000)"
proof -
  note d = direction_bounds[OF R]
  let ?dx = "fl (1 / fl (sqrt 2))" and ?dy = "fl (- 1 / fl (sqrt 2))"
  let ?lo = "10606599 / 100000 :: real" and ?hi = "10606605 / 100000 :: real"
  let ?lo1 = "10606598 / 100000 :: real" and ?hi1 = "10606606 / 100000 :: real"
  have p: "?lo \<le> ?dx * 150" "?dx * 150 \<le> ?hi" using d(1,2) by simp_all
  have n: "?lo \<le> - (?dy * 150)" "- (?dy * 150) \<le> ?hi" using d(3,4) by simp_all
  have p1: "?lo1 \<le> fl (?dx * 150)" "fl (?dx * 150) \<le> ?hi1"
  proof -
    note b = fl_pos[OF R, of ?lo "?dx * 150" ?hi]
    have "?lo - ?lo / 2 ^ 52 \<le> fl (?dx * 150)" using p by (intro b) simp_all
    then show "?lo1 \<le> fl (?dx * 150)" by simp
    have "fl (?dx * 150) \<le> ?hi + ?hi / 2 ^ 52" using p by (intro b) simp_all
    then show "fl (?dx * 150) \<le> ?hi1" by simp
  qed
  have n1: "- ?hi1 \<le> fl (?dy * 150)" "fl (?dy * 150) \<le> - ?lo1"
  proof -
    note b = fl_neg[OF R, of ?lo "?dy * 150" ?hi]
    have "- (?hi + ?hi / 2 ^ 52) \<le> fl (?dy * 150)" using n by (intro b) simp_all
    then show "- ?hi1 \<le> fl (?dy * 150)" by simp
    have "fl (?dy * 150) \<le> - (?lo - ?lo / 2 ^ 52)" using n by (intro b) simp_all
    then show "fl (?dy * 150) \<le> - ?lo1" by simp
  qed
  note b = fl_pos[OF R, of ?lo1 "fl (?dx * 150) * 1" ?hi1]
  have "?lo1 - ?lo1 / 2 ^ 52 \<le> mx" unfolding mx_def using p1 by (intro b) simp_all
  then show "1060659 / 10000 \<le> mx" by simp
  have "mx \<le> ?hi1 + ?hi1 / 2 ^ 52" unfolding mx_def using p1 by (intro b) simp_all
  then show "mx \<le> 1060661 / 10000" by simp
  note c = fl_neg[OF R, of ?lo1 "fl (?dy * 150) * 1" ?hi1]
  have "- (?hi1 + ?hi1 / 2 ^ 52) \<le> my" unfolding my_def using n1 by (intro c) simp_all
  then show "- (1060661 / 10000) \<le> my" by simp
  have "my \<le> - (?lo1 - ?lo1 / 2 ^ 52)" unfolding my_def using n1 by (intro c) simp_all
  then show "my \<le> - (1060659 / 10000)" by simp
qed

lemma exact_rounding: "binary64_rounding (\<lambda>x. x)"
  by (simp add: binary64_rounding_def)

lemma magnitude_bounds:
  fixes mx my :: real
  assumes "1060659 / 10000 \<le> mx" "mx \<le> 1060661 / 10000"
    and "- (1060661 / 10000) \<le> my" "my \<le> - (1060659 / 10000)"
  shows "\<bar>sqrt (mx\<^sup>2 + my\<^sup>2) - 150\<bar> < 1 / 1000"
proof -
  have x1: "(1060659 / 10000)\<^sup>2 \<le> mx\<^sup>2" using assms(1) by (intro power_mono) simp_all
  have x2: "mx\<^sup>2 \<le> (1060661 / 10000)\<^sup>2" using assms(1,2) by (intro power_mono) simp_all
  have "(1060659 / 10000)\<^sup>2 \<le> (- my)\<^sup>2" using assms(4) by (intro power_mono) simp_all
  then have y1: "(1060659 / 10000)\<^sup>2 \<le> my\<^sup>2" by simp
  have "(- my)\<^sup>2 \<le> (1060661 / 10000)\<^sup>2" using assms(3,4) by (intro power_mono) simp_all
  then have y2: "my\<^sup>2 \<le> (1060661 / 10000)\<^sup>2" by simp
  have lo: "(149999 / 1000)\<^sup>2 < mx\<^sup>2 + my\<^sup>2"
  proof -
    have "(149999 / 1000 :: real)\<^sup>2 < (1060659 / 10000)\<^sup>2 + (1060659 / 10000)\<^sup>2"
      by (simp add: power2_eq_square)
    then show ?thesis using x1 y1 by linarith
  qed
  have hi: "mx\<^sup>2 + my\<^sup>2 < (150001 / 1000)\<^sup>2"
  proof -
    have "(1060661 / 10000)\<^sup>2 + (1060661 / 10000)\<^sup>2 < (150001 / 1000 :: real)\<^sup>2"
      by (simp add: power2_eq_square)
    then show ?thesis using x2 y2 by linarith
  qed
  have "149999 / 1000 < sqrt (mx\<^sup>2 + my\<^sup>2)" using lo by (rule real_less_rsqrt)
  moreover have "sqrt (mx\<^sup>2 + my\<^sup>2) < 150001 / 1000" using hi by (intro real_less_lsqrt) simp_all
  ultimately show ?thesis by linarith
qed


section \<open>The claims on entities, components and the World\<close>

text \<open>
  C1. For every sequence of create, attach, detach, tag, activate and destroy operations
  on a World, each called on a live entity, \<open>query([T])\<close> with \<open>include_inactive\<close> left at
  false returns exactly the live, active entities that hold a component of type \<open>T\<close>;
  with \<open>include_inactive\<close> true the inactive holders are returned as well.
\<close>

theorem query_index_consistency:
  assumes "run_ops World_init xs = Some s"
  shows "query s [T] False = {e. live s e \<and> is_active s e \<and> has_component s e T} \<and>
         query s [T] True = {e. live s e \<and> has_component s e T}"
  using reachable_consistent[OF assms] by (simp add: query_eq is_active_def)

theorem query_index_consistency_witness:
  "run_ops World_init demo_ops = Some demo_store \<and>
   query demo_store [''Transform''] False =
     {e. live demo_store e \<and> is_active demo_store e \<and> has_component demo_store e ''Transform''} \<and>
   query demo_store [''Transform''] False = {0} \<and>
   query demo_store [''Transform''] True = {0, 1}"
proof -
  have a: "query demo_store [''Transform''] False = {0}"
    by (simp add: eval_defs)
  have b: "query demo_store [''Transform''] True = {0, 1}"
    by (simp add: eval_defs)
  show ?thesis
    using query_index_consistency[OF demo_run, of "''Transform''"] a b demo_run by simp
qed

text \<open>
  C2. For every entity \<open>E\<close> and component \<open>c\<close> whose type is already attached to \<open>E\<close>,
  \<open>add_component\<close> raises the error of line 46 (a ValueError, which the specification
  names DuplicateComponentError) and leaves the whole store as it was: the component
  mapping, the tags and the active flag of \<open>E\<close>, the component, and the indexes of the
  World. No hook is called.
\<close>

theorem add_component_duplicate:
  assumes "has_component s e (get_component_type c)"
  shows "add_component hk e c s =
     (Inl (ValueError (''Entity already has a component of type '' @ get_component_type c)), s)"
  using assms by (simp add: add_component_def)

theorem add_component_duplicate_witness:
  "has_component demo_store 0 (get_component_type (CRef ''Transform'' 7)) \<and>
   add_component Component_hooks 0 (CRef ''Transform'' 7) demo_store =
     (Inl (ValueError ''Entity already has a component of type Transform''), demo_store)"
proof -
  have h: "has_component demo_store 0 (get_component_type (CRef ''Transform'' 7))"
    by (simp add: eval_defs)
  show ?thesis
    using h add_component_duplicate[OF h, of Component_hooks] by simp
qed


text \<open>
  C4. For every entity \<open>E\<close> and component \<open>c\<close> whose type is not yet attached to \<open>E\<close>,
  \<open>add_component\<close> returns \<open>E\<close>, and the store it leaves is the on-attach hook of \<open>c\<close>
  applied to a store \<open>s3\<close>, the same for every hook, in which \<open>c\<close> refers back to \<open>E\<close>,
  \<open>E\<close> holds \<open>c\<close> under its type, and the type index of the World lists \<open>E\<close>: the hook
  runs last and observes \<open>c\<close> linked and indexed.
\<close>

theorem add_component_order:
  assumes "\<not> has_component s e (get_component_type c)"
  shows "\<exists>s3. (\<forall>hk. add_component hk e c s = (Inr e, on_add hk c s3)) \<and>
           get_entity s3 c = Some e \<and>
           get_component s3 e (get_component_type c) = Some c \<and>
           entity_id (ents s3 e) \<in> type_index (world s3) (get_component_type c)"
proof -
  let ?t = "get_component_type c"
  let ?s1 = "set_entity c e s"
  let ?s2 = "set_components e (AList.update ?t c (components (ents ?s1 e))) ?s1"
  let ?s3 = "entity_component_added e c ?s2"
  have "\<forall>hk. add_component hk e c s = (Inr e, on_add hk c ?s3)"
    using assms by (simp add: add_component_def Let_def)
  moreover have "get_entity ?s3 c = Some e"
    by (simp add: get_entity_def entity_component_added_def set_components_def set_entity_def Let_def)
  moreover have "get_component ?s3 e ?t = Some c"
    by (simp add: get_component_def entity_component_added_def set_components_def set_entity_def
        Let_def AList.update_conv')
  moreover have "entity_id (ents ?s3 e) \<in> type_index (world ?s3) ?t"
    by (simp add: entity_component_added_def set_components_def set_entity_def Let_def)
  ultimately show ?thesis by blast
qed

theorem add_component_order_witness:
  "\<not> has_component demo_store 0 (get_component_type (CRef ''Sprite'' 2)) \<and>
   (\<exists>s3. (\<forall>hk. add_component hk 0 (CRef ''Sprite'' 2) demo_store = (Inr 0, on_add hk (CRef ''Sprite'' 2) s3)) \<and>
         get_entity s3 (CRef ''Sprite'' 2) = Some 0 \<and>
         get_component s3 0 ''Sprite'' = Some (CRef ''Sprite'' 2) \<and>
         entity_id (ents s3 0) \<in> type_index (world s3) ''Sprite'')"
proof -
  have h: "\<not> has_component demo_store 0 (get_component_type (CRef ''Sprite'' 2))"
    by (simp add: eval_defs)
  show ?thesis
    using h add_component_order[OF h] by simp
qed

text \<open>
  C3, as the specification states it: attaching to a second entity a component instance
  that is already attached to a first one raises an error. The code has no such check:
  the Sprite of entity 0 is attached to entity 1 as well, the call returns entity 1, and
  both entities hold the same instance.
\<close>

theorem shared_component_counterexample:
  "get_component sprite_store 0 ''Sprite'' = Some (CRef ''Sprite'' 0) \<and>
   get_entity sprite_store (CRef ''Sprite'' 0) = Some 0 \<and>
   get_component sprite_store 1 ''Sprite'' = None \<and>
   fst (add_component Component_hooks 1 (CRef ''Sprite'' 0) sprite_store) = Inr 1 \<and>
   get_component (snd (add_component Component_hooks 1 (CRef ''Sprite'' 0) sprite_store)) 0 ''Sprite''
     = Some (CRef ''Sprite'' 0) \<and>
   get_component (snd (add_component Component_hooks 1 (CRef ''Sprite'' 0) sprite_store)) 1 ''Sprite''
     = Some (CRef ''Sprite'' 0)"
  by (simp add: sprite_store_def eval_defs)

text \<open>
  C3, amended. For every component instance \<open>c\<close> attached to an entity \<open>E1\<close> and every
  other entity \<open>E2\<close> that holds no component of the type of \<open>c\<close>, \<open>add_component(c)\<close> on
  \<open>E2\<close> raises nothing and returns \<open>E2\<close>; afterwards \<open>E1\<close> and \<open>E2\<close> both hold \<open>c\<close>, and the
  back-reference of \<open>c\<close> is \<open>E2\<close>.
\<close>

theorem add_component_shares:
  assumes "e1 \<noteq> e2" and "get_component s e1 t = Some c"
    and "\<not> has_component s e2 (get_component_type c)"
  shows "fst (add_component Component_hooks e2 c s) = Inr e2 \<and>
         get_component (snd (add_component Component_hooks e2 c s)) e1 t = Some c \<and>
         get_component (snd (add_component Component_hooks e2 c s)) e2 (get_component_type c) = Some c \<and>
         get_entity (snd (add_component Component_hooks e2 c s)) c = Some e2"
  using assms by (simp add: add_defs get_component_def get_entity_def AList.update_conv')

theorem add_component_shares_witness:
  "(0::nat) \<noteq> 1 \<and> get_component sprite_store 0 ''Sprite'' = Some (CRef ''Sprite'' 0) \<and>
   \<not> has_component sprite_store 1 (get_component_type (CRef ''Sprite'' 0)) \<and>
   fst (add_component Component_hooks 1 (CRef ''Sprite'' 0) sprite_store) = Inr 1 \<and>
   get_component (snd (add_component Component_hooks 1 (CRef ''Sprite'' 0) sprite_store)) 0 ''Sprite''
     = Some (CRef ''Sprite'' 0) \<and>
   get_entity (snd (add_component Component_hooks 1 (CRef ''Sprite'' 0) sprite_store)) (CRef ''Sprite'' 0)
     = Some 1"
proof -
  have h1: "(0::nat) \<noteq> 1" by simp
  have h2: "get_component sprite_store 0 ''Sprite'' = Some (CRef ''Sprite'' 0)"
    by (simp add: sprite_store_def eval_defs)
  have h3: "\<not> has_component sprite_store 1 (get_component_type (CRef ''Sprite'' 0))"
    by (simp add: sprite_store_def eval_defs)
  show ?thesis
    using h1 h2 h3 add_component_shares[OF h1 h2 h3] by simp
qed


text \<open>
  C5. For every entity \<open>E\<close> and component type \<open>T\<close>: when no component is stored under
  \<open>T\<close>, \<open>remove_component(T)\<close> returns None and leaves the store as it was. When \<open>c\<close> is
  stored under \<open>T\<close>, the on-detach hook of \<open>c\<close> is applied to the store of the call, in which
  \<open>c\<close> is still attached; then \<open>c\<close> is deleted from the mapping of \<open>E\<close>, the World removes
  \<open>E\<close> from the type index of the class of \<open>c\<close>, and \<open>c\<close> is returned. (A hook that itself
  deletes the key from the mapping makes \<open>del\<close> raise KeyError; the hooks of the base
  class do not.)
\<close>

theorem remove_component_contract:
  "(get_component s e t = None \<longrightarrow> remove_component hk e t s = (Inr None, s)) \<and>
   (\<forall>c. get_component s e t = Some c \<and> has_component (on_remove hk c s) e t \<longrightarrow>
      (let s1 = on_remove hk c s;
           s2 = set_components e (AList.delete t (components (ents s1 e))) s1;
           s3 = entity_component_removed e c s2
       in remove_component hk e t s = (Inr (Some c), s3) \<and>
          \<not> has_component s3 e t \<and> get_component s3 e t = None \<and>
          entity_id (ents s3 e) \<notin> type_index (world s3) (get_component_type c)))"
proof (intro conjI impI allI)
  assume "get_component s e t = None"
  then show "remove_component hk e t s = (Inr None, s)" by (rule remove_component_absent)
next
  fix c assume a: "get_component s e t = Some c \<and> has_component (on_remove hk c s) e t"
  let ?s1 = "on_remove hk c s"
  let ?s2 = "set_components e (AList.delete t (components (ents ?s1 e))) ?s1"
  let ?s3 = "entity_component_removed e c ?s2"
  have r: "remove_component hk e t s = (Inr (Some c), ?s3)"
    using a by (simp add: remove_component_def Let_def)
  have comps3: "components (ents ?s3 e) = AList.delete t (components (ents ?s1 e))"
    by (simp add: entity_component_removed_def set_components_def Let_def)
  have n: "\<not> has_component ?s3 e t"
    unfolding has_component_def comps3 by (simp add: keys_delete)
  have g: "get_component ?s3 e t = None"
    unfolding get_component_def comps3 by (simp add: AList.delete_conv')
  have i: "entity_id (ents ?s3 e) \<notin> type_index (world ?s3) (get_component_type c)"
    by (simp add: entity_component_removed_def set_components_def Let_def)
  show "let s1 = on_remove hk c s;
           s2 = set_components e (AList.delete t (components (ents s1 e))) s1;
           s3 = entity_component_removed e c s2
       in remove_component hk e t s = (Inr (Some c), s3) \<and>
          \<not> has_component s3 e t \<and> get_component s3 e t = None \<and>
          entity_id (ents s3 e) \<notin> type_index (world s3) (get_component_type c)"
    unfolding Let_def using r n g i by blast
qed

theorem remove_component_contract_witness:
  "get_component demo_store 0 ''Sprite'' = None \<and>
   remove_component Component_hooks 0 ''Sprite'' demo_store = (Inr None, demo_store) \<and>
   get_component demo_store 0 ''Transform'' = Some (CRef ''Transform'' 0) \<and>
   has_component (on_remove Component_hooks (CRef ''Transform'' 0) demo_store) 0 ''Transform'' \<and>
   fst (remove_component Component_hooks 0 ''Transform'' demo_store) = Inr (Some (CRef ''Transform'' 0)) \<and>
   \<not> has_component (snd (remove_component Component_hooks 0 ''Transform'' demo_store)) 0 ''Transform'' \<and>
   PStr ''player'' \<notin> type_index (world (snd (remove_component Component_hooks 0 ''Transform'' demo_store))) ''Transform''"
proof -
  have h1: "get_component demo_store 0 ''Sprite'' = None"
    by (simp add: eval_defs)
  have h2: "get_component demo_store 0 ''Transform'' = Some (CRef ''Transform'' 0)"
    by (simp add: eval_defs)
  have h3: "has_component (on_remove Component_hooks (CRef ''Transform'' 0) demo_store) 0 ''Transform''"
    using get_component_has[OF h2] by (simp add: Component_hooks_def)
  have i: "entity_id (ents demo_store 0) = PStr ''player''"
    by (simp add: eval_defs)
  from remove_component_contract[of demo_store 0 "''Sprite''" Component_hooks] h1
  have a: "remove_component Component_hooks 0 ''Sprite'' demo_store = (Inr None, demo_store)"
    by blast
  from remove_component_contract[of demo_store 0 "''Transform''" Component_hooks] h2 h3
  have b: "let s1 = on_remove Component_hooks (CRef ''Transform'' 0) demo_store;
           s2 = set_components 0 (AList.delete ''Transform'' (components (ents s1 0))) s1;
           s3 = entity_component_removed 0 (CRef ''Transform'' 0) s2
       in remove_component Component_hooks 0 ''Transform'' demo_store = (Inr (Some (CRef ''Transform'' 0)), s3) \<and>
          \<not> has_component s3 0 ''Transform'' \<and> get_component s3 0 ''Transform'' = None \<and>
          entity_id (ents s3 0) \<notin> type_index (world s3) (get_component_type (CRef ''Transform'' 0))"
    by blast
  have c: "fst (remove_component Component_hooks 0 ''Transform'' demo_store) = Inr (Some (CRef ''Transform'' 0))"
    and d: "\<not> has_component (snd (remove_component Component_hooks 0 ''Transform'' demo_store)) 0 ''Transform''"
    and e: "entity_id (ents (snd (remove_component Component_hooks 0 ''Transform'' demo_store)) 0)
       \<notin> type_index (world (snd (remove_component Component_hooks 0 ''Transform'' demo_store))) ''Transform''"
    using b unfolding Let_def by simp_all
  have "entity_id (ents (snd (remove_component Component_hooks 0 ''Transform'' demo_store)) 0) = PStr ''player''"
    using i by (simp add: remove_component_frame)
  then show ?thesis using h1 a h2 h3 c d e by simp
qed


text \<open>
  C9. For every entity \<open>E\<close> holding \<open>c\<close> under \<open>T\<close>, \<open>remove_component(T)\<close> itself writes to
  no component object: the component objects after the call are those the on-detach hook
  left. With the hooks of the base class the call returns \<open>c\<close>, \<open>E\<close> no longer holds it, and
  every component object, the back-reference of \<open>c\<close> included, is unchanged:
  \<open>c.get_entity()\<close> returns what it returned before, \<open>E\<close> when \<open>c\<close> referred to \<open>E\<close>.
\<close>

theorem remove_component_keeps_backref:
  assumes "get_component s e t = Some c"
  shows "comps (snd (remove_component hk e t s)) = comps (on_remove hk c s) \<and>
         remove_component Component_hooks e t s =
           (Inr (Some c), snd (remove_component Component_hooks e t s)) \<and>
         get_component (snd (remove_component Component_hooks e t s)) e t = None \<and>
         comps (snd (remove_component Component_hooks e t s)) = comps s \<and>
         get_entity (snd (remove_component Component_hooks e t s)) c = get_entity s c"
proof -
  have a: "comps (snd (remove_component hk e t s)) = comps (on_remove hk c s)"
    using assms
    by (simp add: remove_component_def Let_def set_components_def entity_component_removed_def)
  note eff = remove_component_effect[OF assms]
  have b: "remove_component Component_hooks e t s =
           (Inr (Some c), snd (remove_component Component_hooks e t s))"
    using eff(1) by (cases "remove_component Component_hooks e t s") simp
  have c: "get_component (snd (remove_component Component_hooks e t s)) e t = None"
    by (simp add: get_component_def eff(4) AList.delete_conv')
  show ?thesis using a b c eff(8) by (simp add: get_entity_def)
qed

theorem remove_component_keeps_backref_witness:
  "get_component demo_store 0 ''Transform'' = Some (CRef ''Transform'' 0) \<and>
   get_entity demo_store (CRef ''Transform'' 0) = Some 0 \<and>
   fst (remove_component Component_hooks 0 ''Transform'' demo_store) = Inr (Some (CRef ''Transform'' 0)) \<and>
   get_component (snd (remove_component Component_hooks 0 ''Transform'' demo_store)) 0 ''Transform'' = None \<and>
   get_entity (snd (remove_component Component_hooks 0 ''Transform'' demo_store)) (CRef ''Transform'' 0) = Some 0"
proof -
  have h: "get_component demo_store 0 ''Transform'' = Some (CRef ''Transform'' 0)"
    by (simp add: eval_defs)
  have g: "get_entity demo_store (CRef ''Transform'' 0) = Some 0"
    by (simp add: eval_defs)
  have "fst (remove_component Component_hooks 0 ''Transform'' demo_store) = Inr (Some (CRef ''Transform'' 0))"
    using remove_component_keeps_backref[OF h, of Component_hooks] by (metis fst_conv)
  then show ?thesis
    using h g remove_component_keeps_backref[OF h, of Component_hooks] by simp
qed


text \<open>
  C10. \<open>Entity.__init__\<close> uses a truthy supplied identifier as it is, and replaces every
  falsy one (0, the empty string, False, None) by the generated UUID string.
\<close>

theorem Entity_init_id:
  "(truthy eid \<longrightarrow> entity_id (Entity_init eid uuid) = eid) \<and>
   (\<not> truthy eid \<longrightarrow> entity_id (Entity_init eid uuid) = PStr uuid) \<and>
   entity_id (Entity_init (PInt 0) uuid) = PStr uuid \<and>
   entity_id (Entity_init (PStr []) uuid) = PStr uuid \<and>
   entity_id (Entity_init (PBool False) uuid) = PStr uuid \<and>
   entity_id (Entity_init PNone uuid) = PStr uuid"
  by (simp add: Entity_init_def)

theorem Entity_init_id_witness:
  "truthy (PStr ''player'') \<and>
   entity_id (Entity_init (PStr ''player'') ''9f1c'') = PStr ''player'' \<and>
   \<not> truthy (PInt 0) \<and>
   entity_id (Entity_init (PInt 0) ''9f1c'') = PStr ''9f1c''"
proof -
  have h1: "truthy (PStr ''player'')" by simp
  have h2: "\<not> truthy (PInt 0)" by simp
  show ?thesis
    using h1 h2 Entity_init_id[of "PStr ''player''" "''9f1c''"] Entity_init_id[of "PInt 0" "''9f1c''"]
    by simp
qed

text \<open>
  C6. \<open>destroy\<close> removes the components one after the other, in the order of the keys
  taken before the first removal, each removal (hook included) on the store the one
  before it left, and then has the World erase the entity: when no removal raises, for
  any hooks, the store it leaves is \<open>remove_entity\<close> applied to the fold of
  \<open>remove_component\<close> over the keys. For a live entity \<open>E\<close> of a World reached by
  operations on live entities, and the hooks of the base class, \<open>destroy\<close> raises nothing;
  afterwards the component mapping of \<open>E\<close> is empty, \<open>E\<close> is not live, its id is in no type
  index, in no tag index, not in the active set and not in the registry, and \<open>E\<close> is in
  the result of no query, whatever the required types, after any further operations on
  live entities.
\<close>

theorem destroy_finality:
  assumes "run_ops World_init xs = Some s" and "live s e"
  shows "(\<forall>hk. fst (remove_all hk e (map fst (components (ents s e))) s) = Inr () \<longrightarrow>
            destroy hk e s =
              (Inr (), remove_entity e
                 (fold (\<lambda>t s. snd (remove_component hk e t s)) (map fst (components (ents s e))) s))) \<and>
         fst (destroy Component_hooks e s) = Inr () \<and>
         components (ents (snd (destroy Component_hooks e s)) e) = [] \<and>
         \<not> live (snd (destroy Component_hooks e s)) e \<and>
         (\<forall>t. entity_id (ents s e) \<notin> type_index (world (snd (destroy Component_hooks e s))) t) \<and>
         (\<forall>tag. entity_id (ents s e) \<notin> tag_index (world (snd (destroy Component_hooks e s))) tag) \<and>
         entity_id (ents s e) \<notin> active_ids (world (snd (destroy Component_hooks e s))) \<and>
         registry (world (snd (destroy Component_hooks e s))) (entity_id (ents s e)) = None \<and>
         (\<forall>ys s''. run_ops (snd (destroy Component_hooks e s)) ys = Some s'' \<longrightarrow>
            (\<forall>ts incl. e \<notin> query s'' ts incl))"
proof -
  let ?s' = "snd (destroy Component_hooks e s)"
  have c: "consistent s" by (rule reachable_consistent[OF assms(1)])
  note post = destroy_post[OF c assms(2)]
  have idk: "entity_id (ents ?s' e) = entity_id (ents s e)"
    using remove_all_frame[of e "map fst (components (ents s e))" s]
    by (simp add: destroy_eq remove_entity_effect(3))
  have later: "e \<notin> query s'' ts incl" if r: "run_ops ?s' ys = Some s''" for ys s'' ts incl
  proof
    assume "e \<in> query s'' ts incl"
    then have "live s'' e" using consistent_run_ops[OF post(6) r] by (rule query_live[rotated])
    moreover have "gone s'' e" by (rule gone_run_ops[OF post(7) r])
    ultimately show False by (simp add: gone_def)
  qed
  have "\<not> live ?s' e" using post(7) by (simp add: gone_def)
  then show ?thesis
    using destroy_fold[of _ e s] post(1-5) later
    unfolding idk by (simp add: destroy_eq)
qed

theorem destroy_finality_witness:
  "run_ops World_init demo_ops = Some demo_store \<and> live demo_store 0 \<and>
   fst (destroy Component_hooks 0 demo_store) = Inr () \<and>
   components (ents (snd (destroy Component_hooks 0 demo_store)) 0) = [] \<and>
   \<not> live (snd (destroy Component_hooks 0 demo_store)) 0 \<and>
   PStr ''player'' \<notin> type_index (world (snd (destroy Component_hooks 0 demo_store))) ''Transform'' \<and>
   PStr ''player'' \<notin> tag_index (world (snd (destroy Component_hooks 0 demo_store))) (PStr ''hero'') \<and>
   0 \<notin> query (snd (destroy Component_hooks 0 demo_store)) [''Transform''] True \<and>
   0 \<notin> query (snd (destroy Component_hooks 0 demo_store)) [] True"
proof -
  have lv: "live demo_store 0" by (simp add: eval_defs)
  have i: "entity_id (ents demo_store 0) = PStr ''player''" by (simp add: eval_defs)
  note f = destroy_finality[OF demo_run lv]
  have r: "run_ops (snd (destroy Component_hooks 0 demo_store)) [] = Some (snd (destroy Component_hooks 0 demo_store))"
    by simp
  have q: "0 \<notin> query (snd (destroy Component_hooks 0 demo_store)) ts True" for ts
    using f r by blast
  show ?thesis using demo_run lv f q unfolding i by blast
qed

section \<open>The claims on the player\<close>

text \<open>
  C7. For a PlayerController with \<open>move_speed = 150\<close>, the up and the right key pressed,
  the down, left and sprint keys not pressed, and \<open>dt = 1.0\<close>, \<open>process_input\<close> returns a
  displacement \<open>(mx, my)\<close> with \<open>mx\<close> within 0.005 of 106.07, \<open>my\<close> within 0.005 of -106.07
  and a magnitude within 0.001 of 150; it is not the unnormalised \<open>(150, -150)\<close>. This
  holds for every rounding with the two properties of \<open>binary64_rounding\<close>; in exact
  arithmetic the displacement is \<open>(150 / sqrt 2, - 150 / sqrt 2)\<close>.
\<close>

theorem diagonal_input_normalized:
  assumes "binary64_rounding fl" and "move_speed pc = 150"
    and "move_keys pc ''up'' = Some ku" and "move_keys pc ''down'' = Some kd"
    and "move_keys pc ''left'' = Some kl" and "move_keys pc ''right'' = Some kr"
    and "pressed keys ku" and "\<not> pressed keys kd" and "\<not> pressed keys kl"
    and "pressed keys kr" and "\<not> pressed keys (sprint_key pc)"
  shows "\<exists>mx my. fst (process_input fl pc 1 keys) = Inr (mx, my) \<and>
           \<bar>mx - 10607 / 100\<bar> < 5 / 1000 \<and> \<bar>my + 10607 / 100\<bar> < 5 / 1000 \<and>
           \<bar>sqrt (mx\<^sup>2 + my\<^sup>2) - 150\<bar> < 1 / 1000 \<and> (mx, my) \<noteq> (150, - 150)"
proof -
  note R = assms(1)
  have L: "fl (sqrt 2) \<noteq> 0" using length_bounds(1)[OF R] by linarith
  let ?mx = "fl (fl (fl (1 / fl (sqrt 2)) * 150) * 1)"
  let ?my = "fl (fl (fl (- 1 / fl (sqrt 2)) * 150) * 1)"
  have e: "fst (process_input fl pc 1 keys) = Inr (?mx, ?my)"
    using diagonal_input[OF R assms(3-11) L, of 1] by (simp add: assms(2))
  note b = displacement_bounds[OF R]
  have "\<bar>?mx - 10607 / 100\<bar> < 5 / 1000" using b(1,2) by linarith
  moreover have "\<bar>?my + 10607 / 100\<bar> < 5 / 1000" using b(3,4) by linarith
  moreover have "\<bar>sqrt (?mx\<^sup>2 + ?my\<^sup>2) - 150\<bar> < 1 / 1000" by (rule magnitude_bounds[OF b])
  moreover have "(?mx, ?my) \<noteq> (150, - 150)" using b(2) by auto
  ultimately show ?thesis using e by blast
qed

theorem diagonal_input_normalized_witness:
  "binary64_rounding (\<lambda>x. x) \<and>
   move_speed (PlayerController_init :: unit PlayerController) = 150 \<and>
   move_keys (PlayerController_init :: unit PlayerController) ''up'' = Some K_w \<and>
   move_keys (PlayerController_init :: unit PlayerController) ''right'' = Some K_d \<and>
   pressed [K_w \<mapsto> True, K_d \<mapsto> True] K_w \<and> pressed [K_w \<mapsto> True, K_d \<mapsto> True] K_d \<and>
   fst (process_input (\<lambda>x. x) (PlayerController_init :: unit PlayerController) 1
          [K_w \<mapsto> True, K_d \<mapsto> True]) = Inr (150 / sqrt 2, - (150 / sqrt 2)) \<and>
   (\<exists>mx my. fst (process_input (\<lambda>x. x) (PlayerController_init :: unit PlayerController) 1
          [K_w \<mapsto> True, K_d \<mapsto> True]) = Inr (mx, my) \<and>
        \<bar>mx - 10607 / 100\<bar> < 5 / 1000 \<and> \<bar>my + 10607 / 100\<bar> < 5 / 1000 \<and>
        \<bar>sqrt (mx\<^sup>2 + my\<^sup>2) - 150\<bar> < 1 / 1000 \<and> (mx, my) \<noteq> (150, - 150))"
proof -
  let ?pc = "PlayerController_init :: unit PlayerController"
  let ?keys = "[K_w \<mapsto> True, K_d \<mapsto> True]"
  have h: "move_speed ?pc = 150" "move_keys ?pc ''up'' = Some K_w" "move_keys ?pc ''down'' = Some K_s"
    "move_keys ?pc ''left'' = Some K_a" "move_keys ?pc ''right'' = Some K_d"
    by (simp_all add: PlayerController_init_def)
  have p: "pressed ?keys K_w" "\<not> pressed ?keys K_s" "\<not> pressed ?keys K_a" "pressed ?keys K_d"
    "\<not> pressed ?keys (sprint_key ?pc)"
    by (simp_all add: pressed_def PlayerController_init_def K_w_def K_s_def K_a_def K_d_def K_LSHIFT_def)
  have v: "fst (process_input (\<lambda>x. x) ?pc 1 ?keys) = Inr (150 / sqrt 2, - (150 / sqrt 2))"
    using diagonal_input[OF exact_rounding h(2-5) p, of 1] by (simp add: h(1))
  show ?thesis
    using diagonal_input_normalized[OF exact_rounding h p] exact_rounding h p v by blast
qed

text \<open>
  C8. When the interaction key is down in two consecutive frames and was not down in the
  frame before them, and a callback is registered, the first frame calls the callback
  once and \<open>process_interaction\<close> returns True; the second frame does not call it and
  returns False.
\<close>

theorem interaction_edge_triggered:
  assumes "on_interact pc = Some callback"
    and "0 \<le> interact_key pc"
    and "nat (interact_key pc) < length ks1" and "ks1 ! nat (interact_key pc)"
    and "nat (interact_key pc) < length ks2" and "ks2 ! nat (interact_key pc)"
    and "keys_pressed sys (interact_key pc) = None"
  shows "interaction_frame pc ks1 (sys, w) = (True, update_input_state ks1 sys, callback w) \<and>
         interaction_frame pc ks2 (update_input_state ks1 sys, callback w) =
           (False, update_input_state ks2 (update_input_state ks1 sys), callback w)"
  using assms
  by (auto simp: interaction_frame_def update_input_state_def process_interaction_def pressed_def Let_def)

theorem interaction_edge_triggered_witness:
  "on_interact (set_interaction_callback Suc PlayerController_init) = Some Suc \<and>
   0 \<le> interact_key (set_interaction_callback Suc PlayerController_init) \<and>
   nat (interact_key (set_interaction_callback Suc PlayerController_init)) < length (keys_down [101]) \<and>
   keys_down [101] ! nat (interact_key (set_interaction_callback Suc PlayerController_init)) \<and>
   keys_pressed PlayerSystem_init (interact_key (set_interaction_callback Suc PlayerController_init)) = None \<and>
   fst (interaction_frame (set_interaction_callback Suc PlayerController_init) (keys_down [101])
          (PlayerSystem_init, 0)) = True \<and>
   snd (snd (interaction_frame (set_interaction_callback Suc PlayerController_init) (keys_down [101])
          (PlayerSystem_init, 0))) = 1 \<and>
   fst (interaction_frame (set_interaction_callback Suc PlayerController_init) (keys_down [101])
          (update_input_state (keys_down [101]) PlayerSystem_init, 1)) = False \<and>
   snd (snd (interaction_frame (set_interaction_callback Suc PlayerController_init) (keys_down [101])
          (update_input_state (keys_down [101]) PlayerSystem_init, 1))) = 1"
proof -
  let ?pc = "set_interaction_callback Suc PlayerController_init"
  have k: "interact_key ?pc = 101"
    by (simp add: set_interaction_callback_def PlayerController_init_def K_e_def)
  have h1: "on_interact ?pc = Some Suc" by (simp add: set_interaction_callback_def)
  have h2: "0 \<le> interact_key ?pc" by (simp add: k)
  have h3: "nat (interact_key ?pc) < length (keys_down [101])" by (simp add: k keys_down_def)
  have h4: "keys_down [101] ! nat (interact_key ?pc)" by (simp add: k keys_down_def)
  have h5: "keys_pressed PlayerSystem_init (interact_key ?pc) = None" by (simp add: PlayerSystem_init_def)
  note t = interaction_edge_triggered[OF h1 h2 h3 h4 h3 h4 h5, of 0]
  show ?thesis using h1 h2 h3 h4 h5 t by simp
qed

end
